theory Spec2Isabelle
  imports Complex_Main "HOL-Library.Sublist"
begin

section \<open>pysent: slide decks from plain text\<close>

text \<open>
  A shallow embedding of \<^verbatim>\<open>src/main.py\<close>. Python exceptions are values of
  \<open>error\<close>; every function that can raise returns \<open>error + 'a\<close> with \<open>Inl\<close> the
  exception. Python's unbounded \<^verbatim>\<open>int\<close> is \<open>int\<close>. A \<^verbatim>\<open>str\<close> is a \<open>string\<close>, each
  \<open>char\<close> read as one code point below 256.
\<close>

subsection \<open>Exceptions\<close>

datatype error =
    IndexError
  | ValueError
  | ZeroDivisionError
  | OverflowError
  | FileNotFoundError
  | PygameError

subsection \<open>The string methods the parser calls\<close>

text \<open>\<^verbatim>\<open>s.startswith(p)\<close> and \<^verbatim>\<open>s.removeprefix(p)\<close>.\<close>

definition startswith :: "string \<Rightarrow> string \<Rightarrow> bool" where
  "startswith s p = (take (length p) s = p)"

definition removeprefix :: "string \<Rightarrow> string \<Rightarrow> string" where
  "removeprefix s p = (if startswith s p then drop (length p) s else s)"

text \<open>
  \<^verbatim>\<open>s.split(sep)\<close> for a non-empty separator: the occurrences of \<open>sep\<close> are found
  from the left and do not overlap; the pieces between them are returned, empty
  pieces included, so the result always has at least one element. (Python raises
  ValueError for an empty separator; the program only passes the two constant
  separators below.) \<open>acc\<close> holds the current piece, reversed.
\<close>

fun split_sep_from :: "string \<Rightarrow> string \<Rightarrow> string \<Rightarrow> string list" where
  "split_sep_from sep acc [] = [rev acc]"
| "split_sep_from sep acc (c # cs) =
     (if startswith (c # cs) sep
      then rev acc # split_sep_from sep [] (drop (length sep - 1) cs)
      else split_sep_from sep (c # acc) cs)"

definition split_sep :: "string \<Rightarrow> string \<Rightarrow> string list" where
  "split_sep s sep = split_sep_from sep [] s"

text \<open>
  \<^verbatim>\<open>str.isspace\<close> on the code points below 256: tab, line feed, vertical tab, form
  feed, carriage return, the four separators 0x1C..0x1F, space, NEL and the
  no-break space.
\<close>

definition isspace :: "char \<Rightarrow> bool" where
  "isspace c = (c \<in> set [CHR 0x09, CHR 0x0A, CHR 0x0B, CHR 0x0C, CHR 0x0D,
                          CHR 0x1C, CHR 0x1D, CHR 0x1E, CHR 0x1F, CHR 0x20,
                          CHR 0x85, CHR 0xA0])"

text \<open>
  \<^verbatim>\<open>s.split()\<close> with no separator: runs of whitespace separate the tokens and no
  empty token is produced. \<open>acc\<close> holds the current token, reversed.
\<close>

fun split_ws_from :: "string \<Rightarrow> string \<Rightarrow> string list" where
  "split_ws_from acc [] = (if acc = [] then [] else [rev acc])"
| "split_ws_from acc (c # cs) =
     (if isspace c
      then (if acc = [] then split_ws_from [] cs else rev acc # split_ws_from [] cs)
      else split_ws_from (c # acc) cs)"

definition split_ws :: "string \<Rightarrow> string list" where
  "split_ws s = split_ws_from [] s"

text \<open>
  \<^verbatim>\<open>xs[i]\<close> on a list of length \<open>n\<close>: the indices \<open>0 .. n - 1\<close> read from the front, the
  indices \<open>-n .. -1\<close> from the back, and any other index raises IndexError.
\<close>

definition list_index :: "'a list \<Rightarrow> int \<Rightarrow> error + 'a" where
  "list_index xs i =
     (if 0 \<le> i \<and> i < int (length xs) then Inr (xs ! nat i)
      else if - int (length xs) \<le> i \<and> i < 0 then Inr (xs ! nat (int (length xs) + i))
      else Inl IndexError)"

subsection \<open>Slide\<close>

text \<open>
  A \<^verbatim>\<open>pygame.Surface\<close> is modelled by the one attribute the program reads, its size.
\<close>

record surface =
  surf_width :: int
  surf_height :: int

record slide =
  slide_lines :: "string list"
  slide_image :: "surface option"

datatype content = Image surface | Lines "string list"

definition Slide_init :: slide where
  "Slide_init = \<lparr>slide_lines = [], slide_image = None\<rparr>"

text \<open>
  \<^verbatim>\<open>set_image\<close> loads the file at once: \<^verbatim>\<open>self._image = pygame.image.load(image_path)\<close>.
  The loader is the environment's (which files exist and decode), so it is a
  parameter; when it raises, so does \<^verbatim>\<open>set_image\<close>.
\<close>

definition Slide_set_image :: "(string \<Rightarrow> error + surface) \<Rightarrow> slide \<Rightarrow> string \<Rightarrow> error + slide" where
  "Slide_set_image image_load s image_path =
     (case image_load image_path of
        Inl e \<Rightarrow> Inl e
      | Inr img \<Rightarrow> Inr (s\<lparr>slide_image := Some img\<rparr>))"

definition Slide_set_lines :: "slide \<Rightarrow> string list \<Rightarrow> slide" where
  "Slide_set_lines s ls = s\<lparr>slide_lines := ls\<rparr>"

definition Slide_get_content :: "slide \<Rightarrow> content" where
  "Slide_get_content s =
     (case slide_image s of Some img \<Rightarrow> Image img | None \<Rightarrow> Lines (slide_lines s))"

subsection \<open>Presentation\<close>

record presentation =
  slides :: "slide list"
  current_slide :: int

definition Presentation_init :: presentation where
  "Presentation_init = \<lparr>slides = [], current_slide = 0\<rparr>"

definition Presentation_add_slide :: "presentation \<Rightarrow> slide \<Rightarrow> presentation" where
  "Presentation_add_slide p s = p\<lparr>slides := slides p @ [s]\<rparr>"

definition Presentation_get_current_slide :: "presentation \<Rightarrow> error + slide" where
  "Presentation_get_current_slide p = list_index (slides p) (current_slide p)"

definition Presentation_next :: "presentation \<Rightarrow> presentation" where
  "Presentation_next p =
     p\<lparr>current_slide := min (current_slide p + 1) (int (length (slides p)) - 1)\<rparr>"

definition Presentation_prev :: "presentation \<Rightarrow> presentation" where
  "Presentation_prev p = p\<lparr>current_slide := max (current_slide p - 1) 0\<rparr>"

text \<open>The three operations as data, and a run of them from a fresh presentation.\<close>

datatype operation = Add_slide slide | Next | Prev

fun apply_operation :: "presentation \<Rightarrow> operation \<Rightarrow> presentation" where
  "apply_operation p (Add_slide s) = Presentation_add_slide p s"
| "apply_operation p Next = Presentation_next p"
| "apply_operation p Prev = Presentation_prev p"

definition run_operations :: "operation list \<Rightarrow> presentation" where
  "run_operations ops = foldl apply_operation Presentation_init ops"

subsection \<open>parse\<close>

text \<open>
  The argument \<open>text\<close> is what \<^verbatim>\<open>f.read()\<close> returned. \<open>parse_paragraph\<close> is the body of
  the \<^verbatim>\<open>for par in paragraphs\<close> loop up to \<^verbatim>\<open>pres.add_slide(slide)\<close>; \<open>parse_loop\<close> is the
  loop, which stops at the first paragraph that raises.
\<close>

definition parse_paragraph :: "(string \<Rightarrow> error + surface) \<Rightarrow> string \<Rightarrow> error + slide" where
  "parse_paragraph image_load par =
     (if startswith par ''@''
      then (case list_index (split_ws (removeprefix par ''@'')) 0 of
              Inl e \<Rightarrow> Inl e
            | Inr img \<Rightarrow> Slide_set_image image_load Slide_init img)
      else Inr (Slide_set_lines Slide_init
                  (map (\<lambda>line. removeprefix line [CHR 0x5C])
                     (filter (\<lambda>x. \<not> startswith x ''#'')
                        (split_sep par ''\<newline>'')))))"

fun parse_loop :: "(string \<Rightarrow> error + surface) \<Rightarrow> presentation \<Rightarrow> string list \<Rightarrow> error + presentation" where
  "parse_loop image_load pres [] = Inr pres"
| "parse_loop image_load pres (par # pars) =
     (case parse_paragraph image_load par of
        Inl e \<Rightarrow> Inl e
      | Inr s \<Rightarrow> parse_loop image_load (Presentation_add_slide pres s) pars)"

definition parse :: "(string \<Rightarrow> error + surface) \<Rightarrow> string \<Rightarrow> error + presentation" where
  "parse image_load text =
     parse_loop image_load Presentation_init (split_sep text ''\<newline>\<newline>'')"

text \<open>An environment in which no image file exists.\<close>

definition no_images :: "string \<Rightarrow> error + surface" where
  "no_images image_path = Inl FileNotFoundError"

text \<open>An environment in which every path loads a 4 by 3 image.\<close>

definition blank_images :: "string \<Rightarrow> error + surface" where
  "blank_images image_path = Inr \<lparr>surf_width = 4, surf_height = 3\<rparr>"

subsection \<open>The specification's vocabulary for text paragraphs\<close>

text \<open>
  These follow the wording of the specification, character by character, and are
  compared with the string methods the parser calls: a comment line begins with
  \<open>#\<close>; unescaping strips one leading backslash; the lines of a paragraph are the
  pieces between line feeds. A text slide has lines and no image.
\<close>

definition spec_is_comment :: "string \<Rightarrow> bool" where
  "spec_is_comment l = (case l of [] \<Rightarrow> False | c # _ \<Rightarrow> c = CHR ''#'')"

definition spec_unescape :: "string \<Rightarrow> string" where
  "spec_unescape l = (case l of [] \<Rightarrow> [] | c # r \<Rightarrow> if c = CHR 0x5C then r else l)"

fun spec_lines :: "string \<Rightarrow> string list" where
  "spec_lines [] = [[]]"
| "spec_lines (c # cs) =
     (if c = CHR ''\<newline>'' then [] # spec_lines cs
      else (case spec_lines cs of [] \<Rightarrow> [[c]] | l # ls \<Rightarrow> (c # l) # ls))"

definition text_slide :: "string list \<Rightarrow> slide" where
  "text_slide ls = \<lparr>slide_lines = ls, slide_image = None\<rparr>"

subsection \<open>Cursor ranges\<close>

text \<open>
  \<open>cursor_valid\<close>: the cursor is one of \<open>0 .. N - 1\<close>. \<open>next_before_first_slide\<close>: the run
  applies \<open>next\<close> while the presentation still has no slide, that is, before its first
  \<open>add_slide\<close>.
\<close>

definition cursor_valid :: "presentation \<Rightarrow> bool" where
  "cursor_valid p =
     (0 \<le> current_slide p \<and> current_slide p \<le> int (length (slides p)) - 1)"

fun next_before_first_slide :: "operation list \<Rightarrow> bool" where
  "next_before_first_slide [] = False"
| "next_before_first_slide (Add_slide s # ops) = False"
| "next_before_first_slide (Next # ops) = True"
| "next_before_first_slide (Prev # ops) = next_before_first_slide ops"

subsection \<open>Python floats\<close>

text \<open>
  A Python \<^verbatim>\<open>float\<close> is an IEEE 754 binary64 number: a finite value (a rational, here
  \<open>Fin\<close>), an infinity or a NaN. The two zeros are one value \<open>Fin 0\<close>: the program
  cannot tell them apart, since Python raises on a division by either and
  \<^verbatim>\<open>int\<close>, the comparisons and the arithmetic below give the same results for both.
\<close>

datatype pyfloat = Fin rat | PInf | NInf | NaN

text \<open>\<open>bit_length n\<close> is the number of binary digits of \<open>n\<close>.\<close>

fun bit_length :: "nat \<Rightarrow> nat" where
  "bit_length n = (if n = 0 then 0 else Suc (bit_length (n div 2)))"

text \<open>
  For \<open>a > 0\<close>, \<open>binary_exponent a\<close> is the integer \<open>e\<close> with \<open>2 powi e \<le> a < 2 powi (e + 1)\<close>.
\<close>

definition binary_exponent :: "rat \<Rightarrow> int" where
  "binary_exponent a =
     (if 1 \<le> a then int (bit_length (nat \<lfloor>a\<rfloor>)) - 1
      else - int (bit_length (nat (\<lceil>1 / a\<rceil> - 1))))"

text \<open>Rounding to the nearest integer, a tie going to the even one.\<close>

definition round_half_even :: "rat \<Rightarrow> int" where
  "round_half_even y =
     (if y - of_int \<lfloor>y\<rfloor> < 1 / 2 then \<lfloor>y\<rfloor>
      else if 1 / 2 < y - of_int \<lfloor>y\<rfloor> then \<lfloor>y\<rfloor> + 1
      else if even \<lfloor>y\<rfloor> then \<lfloor>y\<rfloor> else \<lfloor>y\<rfloor> + 1)"

text \<open>
  The spacing of the binary64 numbers around \<open>a > 0\<close>: 53 significant bits, and
  \<open>2 powi - 1074\<close> in the subnormal range.
\<close>

definition quantum :: "rat \<Rightarrow> rat" where
  "quantum a = 2 powi (max (binary_exponent a - 52) (- 1074))"

text \<open>
  Rounding a rational to binary64, to nearest with ties to even; a result of
  magnitude \<open>2 ^ 1024\<close> or more is an infinity.
\<close>

definition round_magnitude :: "rat \<Rightarrow> rat" where
  "round_magnitude a = of_int (round_half_even (a / quantum a)) * quantum a"

definition round_double :: "rat \<Rightarrow> pyfloat" where
  "round_double x =
     (if x = 0 then Fin 0
      else if 0 < x
      then (if 2 ^ 1024 \<le> round_magnitude x then PInf else Fin (round_magnitude x))
      else (if 2 ^ 1024 \<le> round_magnitude (- x) then NInf else Fin (- round_magnitude (- x))))"

text \<open>The sign of a float that is not a NaN.\<close>

fun float_sign :: "pyfloat \<Rightarrow> int" where
  "float_sign (Fin x) = (if x < 0 then - 1 else if x = 0 then 0 else 1)"
| "float_sign PInf = 1"
| "float_sign NInf = - 1"
| "float_sign NaN = 0"

definition signed_infinity :: "int \<Rightarrow> pyfloat" where
  "signed_infinity s = (if s = 0 then NaN else if 0 < s then PInf else NInf)"

text \<open>\<^verbatim>\<open>a * b\<close>, \<^verbatim>\<open>a + b\<close> and \<^verbatim>\<open>a - b\<close> on floats: they never raise.\<close>

fun float_mul :: "pyfloat \<Rightarrow> pyfloat \<Rightarrow> pyfloat" where
  "float_mul NaN b = NaN"
| "float_mul a NaN = NaN"
| "float_mul (Fin x) (Fin y) = round_double (x * y)"
| "float_mul a b = signed_infinity (float_sign a * float_sign b)"

fun float_add :: "pyfloat \<Rightarrow> pyfloat \<Rightarrow> pyfloat" where
  "float_add NaN b = NaN"
| "float_add a NaN = NaN"
| "float_add (Fin x) (Fin y) = round_double (x + y)"
| "float_add (Fin x) b = b"
| "float_add a (Fin y) = a"
| "float_add a b = (if a = b then a else NaN)"

fun float_neg :: "pyfloat \<Rightarrow> pyfloat" where
  "float_neg (Fin x) = Fin (- x)"
| "float_neg PInf = NInf"
| "float_neg NInf = PInf"
| "float_neg NaN = NaN"

definition float_sub :: "pyfloat \<Rightarrow> pyfloat \<Rightarrow> pyfloat" where
  "float_sub a b = float_add a (float_neg b)"

text \<open>\<^verbatim>\<open>a / b\<close> on floats: Python raises ZeroDivisionError when \<open>b\<close> is a zero.\<close>

fun float_quotient :: "pyfloat \<Rightarrow> pyfloat \<Rightarrow> pyfloat" where
  "float_quotient NaN b = NaN"
| "float_quotient a NaN = NaN"
| "float_quotient (Fin x) (Fin y) = round_double (x / y)"
| "float_quotient (Fin x) b = Fin 0"
| "float_quotient a (Fin y) = signed_infinity (float_sign a * float_sign (Fin y))"
| "float_quotient a b = NaN"

definition float_truediv :: "pyfloat \<Rightarrow> pyfloat \<Rightarrow> error + pyfloat" where
  "float_truediv a b = (if b = Fin 0 then Inl ZeroDivisionError else Inr (float_quotient a b))"

text \<open>
  \<^verbatim>\<open>a // 2\<close> on a float: the floor of the half, which is again a binary64 number; an
  infinity gives NaN (the remainder of an infinity is NaN).
\<close>

fun float_floordiv_2 :: "pyfloat \<Rightarrow> pyfloat" where
  "float_floordiv_2 (Fin x) = Fin (of_int \<lfloor>x / 2\<rfloor>)"
| "float_floordiv_2 a = NaN"

text \<open>
  \<^verbatim>\<open>float(i)\<close>, as Python converts an \<^verbatim>\<open>int\<close> operand of a float operation: correctly
  rounded, OverflowError when the int is too large for a float.
\<close>

definition float_of_int :: "int \<Rightarrow> error + pyfloat" where
  "float_of_int i =
     (case round_double (of_int i) of Fin r \<Rightarrow> Inr (Fin r) | _ \<Rightarrow> Inl OverflowError)"

text \<open>
  \<^verbatim>\<open>a / b\<close> on two ints: the correctly rounded quotient, ZeroDivisionError for a
  zero divisor, OverflowError when the quotient is too large for a float.
\<close>

definition int_truediv :: "int \<Rightarrow> int \<Rightarrow> error + pyfloat" where
  "int_truediv a b =
     (if b = 0 then Inl ZeroDivisionError
      else case round_double (of_int a / of_int b) of
             Fin r \<Rightarrow> Inr (Fin r)
           | _ \<Rightarrow> Inl OverflowError)"

text \<open>
  \<^verbatim>\<open>int(a)\<close> on a float truncates toward zero; it raises OverflowError on an
  infinity and ValueError on a NaN.
\<close>

definition trunc_toward_zero :: "rat \<Rightarrow> int" where
  "trunc_toward_zero x = (if 0 \<le> x then \<lfloor>x\<rfloor> else \<lceil>x\<rceil>)"

fun int_of_float :: "pyfloat \<Rightarrow> error + int" where
  "int_of_float (Fin x) = Inr (trunc_toward_zero x)"
| "int_of_float NaN = Inl ValueError"
| "int_of_float a = Inl OverflowError"

text \<open>
  \<^verbatim>\<open>a > b\<close> on floats; every comparison with a NaN is false. Python compares an int
  with a float by value, without rounding the int: that is \<open>int_gt_float\<close>.
\<close>

fun float_gt :: "pyfloat \<Rightarrow> pyfloat \<Rightarrow> bool" where
  "float_gt NaN b = False"
| "float_gt a NaN = False"
| "float_gt (Fin x) (Fin y) = (y < x)"
| "float_gt (Fin x) b = (b = NInf)"
| "float_gt PInf b = (b \<noteq> PInf)"
| "float_gt NInf b = False"

definition int_gt_float :: "int \<Rightarrow> pyfloat \<Rightarrow> bool" where
  "int_gt_float i b = float_gt (Fin (of_int i)) b"

text \<open>The operations with an int operand convert it first.\<close>

definition int_mul_float :: "int \<Rightarrow> pyfloat \<Rightarrow> error + pyfloat" where
  "int_mul_float i b =
     (case float_of_int i of Inl e \<Rightarrow> Inl e | Inr a \<Rightarrow> Inr (float_mul a b))"

definition int_sub_float :: "int \<Rightarrow> pyfloat \<Rightarrow> error + pyfloat" where
  "int_sub_float i b =
     (case float_of_int i of Inl e \<Rightarrow> Inl e | Inr a \<Rightarrow> Inr (float_sub a b))"

definition float_sub_int :: "pyfloat \<Rightarrow> int \<Rightarrow> error + pyfloat" where
  "float_sub_int a i =
     (case float_of_int i of Inl e \<Rightarrow> Inl e | Inr b \<Rightarrow> Inr (float_sub a b))"

text \<open>The literal \<^verbatim>\<open>0.1\<close>: the binary64 number nearest to one tenth.\<close>

definition one_tenth :: pyfloat where
  "one_tenth = Fin (3602879701896397 / 36028797018963968)"

text \<open>A Python number is an int or a float.\<close>

datatype number = Int_num int | Float_num pyfloat

subsection \<open>The padded viewport\<close>

text \<open>
  Both drawing functions start with the same four assignments:
  \<^verbatim>\<open>padding = screen * fraction\<close> for each axis, then
  \<^verbatim>\<open>available = screen - 2 * padding\<close> for each axis. The first conversion of a
  screen size that is too large for a float raises OverflowError.
\<close>

record viewport =
  padding_x :: pyfloat
  padding_y :: pyfloat
  available_width :: pyfloat
  available_height :: pyfloat

definition padded_viewport :: "int \<Rightarrow> int \<Rightarrow> pyfloat \<Rightarrow> pyfloat \<Rightarrow> error + viewport" where
  "padded_viewport screen_width screen_height horizontal_padding vertical_padding =
     (case int_mul_float screen_width horizontal_padding of
        Inl e \<Rightarrow> Inl e
      | Inr px \<Rightarrow>
     (case int_mul_float screen_height vertical_padding of
        Inl e \<Rightarrow> Inl e
      | Inr py \<Rightarrow>
     (case int_sub_float screen_width (float_mul (Fin 2) px) of
        Inl e \<Rightarrow> Inl e
      | Inr aw \<Rightarrow>
     (case int_sub_float screen_height (float_mul (Fin 2) py) of
        Inl e \<Rightarrow> Inl e
      | Inr ah \<Rightarrow>
          Inr \<lparr>padding_x = px, padding_y = py,
               available_width = aw, available_height = ah\<rparr>))))"

subsection \<open>draw_centered_image_with_padding\<close>

text \<open>
  Lines 90 to 99: the aspect ratio of the image and the choice between fitting to
  height and fitting to width. In the first branch \<^verbatim>\<open>new_height\<close> is the float
  \<^verbatim>\<open>available_height\<close> and \<^verbatim>\<open>new_width\<close> an int; in the second it is the other way
  round.
\<close>

definition fit_image :: "pyfloat \<Rightarrow> pyfloat \<Rightarrow> surface \<Rightarrow> error + number \<times> number" where
  "fit_image aw ah img =
     (case int_truediv (surf_width img) (surf_height img) of
        Inl e \<Rightarrow> Inl e
      | Inr aspect_ratio \<Rightarrow>
     (case float_truediv aw ah of
        Inl e \<Rightarrow> Inl e
      | Inr ratio \<Rightarrow>
          if float_gt ratio aspect_ratio
          then (case int_of_float (float_mul ah aspect_ratio) of
                  Inl e \<Rightarrow> Inl e
                | Inr w \<Rightarrow> Inr (Int_num w, Float_num ah))
          else (case float_truediv aw aspect_ratio of
                  Inl e \<Rightarrow> Inl e
                | Inr q \<Rightarrow>
               (case int_of_float q of
                  Inl e \<Rightarrow> Inl e
                | Inr h \<Rightarrow> Inr (Float_num aw, Int_num h)))))"

text \<open>
  \<^verbatim>\<open>pygame.transform.scale(image, (new_width, new_height))\<close> is pygame's: it takes the
  two sizes as C ints, a float being truncated toward zero, raises ValueError for a
  negative size and returns a surface of that size. A float that is not finite has
  no C int; the model raises there. The limits of C ints and of video memory are
  not modelled.
\<close>

definition size_component :: "number \<Rightarrow> error + int" where
  "size_component n =
     (case n of
        Int_num i \<Rightarrow> Inr i
      | Float_num a \<Rightarrow> (case a of Fin x \<Rightarrow> Inr (trunc_toward_zero x) | _ \<Rightarrow> Inl PygameError))"

definition transform_scale :: "surface \<Rightarrow> number \<times> number \<Rightarrow> error + surface" where
  "transform_scale img dims =
     (case size_component (fst dims) of
        Inl e \<Rightarrow> Inl e
      | Inr w \<Rightarrow>
     (case size_component (snd dims) of
        Inl e \<Rightarrow> Inl e
      | Inr h \<Rightarrow>
          if w < 0 \<or> h < 0 then Inl ValueError
          else Inr \<lparr>surf_width = w, surf_height = h\<rparr>))"

text \<open>
  What the function draws: the scaled image, of size \<open>image_width\<close> by
  \<open>image_height\<close>, at \<open>(x, y)\<close>. \<open>new_width\<close> and \<open>new_height\<close> are the values of the
  variables of those names.
\<close>

record image_layout =
  new_width :: number
  new_height :: number
  image_width :: int
  image_height :: int
  image_x :: int
  image_y :: int

definition draw_centered_image_with_padding ::
    "surface \<Rightarrow> int \<Rightarrow> int \<Rightarrow> pyfloat \<Rightarrow> pyfloat \<Rightarrow> error + image_layout" where
  "draw_centered_image_with_padding img screen_width screen_height
       horizontal_padding vertical_padding =
     (case padded_viewport screen_width screen_height horizontal_padding vertical_padding of
        Inl e \<Rightarrow> Inl e
      | Inr v \<Rightarrow>
     (case fit_image (available_width v) (available_height v) img of
        Inl e \<Rightarrow> Inl e
      | Inr dims \<Rightarrow>
     (case transform_scale img dims of
        Inl e \<Rightarrow> Inl e
      | Inr scaled \<Rightarrow>
          Inr \<lparr>new_width = fst dims, new_height = snd dims,
               image_width = surf_width scaled, image_height = surf_height scaled,
               image_x = (screen_width - surf_width scaled) div 2,
               image_y = (screen_height - surf_height scaled) div 2\<rparr>)))"

subsection \<open>draw_centered_text\<close>

text \<open>
  A font is pygame's: \<open>font font_size string\<close> stands for
  \<^verbatim>\<open>pygame.font.Font(font_name, font_size).size(string)\<close>, the width and the height of the
  rendered string. It is a parameter of the model.
\<close>

type_synonym font = "int \<Rightarrow> string \<Rightarrow> int \<times> int"

definition total_height :: "font \<Rightarrow> int \<Rightarrow> string list \<Rightarrow> int" where
  "total_height font font_size strings =
     sum_list (map (\<lambda>string. snd (font font_size string)) strings)
       + (int (length strings) - 1) * 10"

text \<open>\<^verbatim>\<open>max\<close> of an iterable raises ValueError when there is no element.\<close>

definition py_max :: "int list \<Rightarrow> error + int" where
  "py_max xs = (case xs of [] \<Rightarrow> Inl ValueError | x # rest \<Rightarrow> Inr (fold max rest x))"

definition max_width :: "font \<Rightarrow> int \<Rightarrow> string list \<Rightarrow> error + int" where
  "max_width font font_size strings =
     py_max (map (\<lambda>string. fst (font font_size string)) strings)"

text \<open>
  One turn of the \<^verbatim>\<open>while True\<close> loop up to its test: the block is measured at
  \<open>font_size\<close>, and the result says whether it overflows the available space.
\<close>

definition overflows :: "font \<Rightarrow> string list \<Rightarrow> pyfloat \<Rightarrow> pyfloat \<Rightarrow> int \<Rightarrow> error + bool" where
  "overflows font strings aw ah font_size =
     (case max_width font font_size strings of
        Inl e \<Rightarrow> Inl e
      | Inr mw \<Rightarrow>
          Inr (int_gt_float (total_height font font_size strings) ah \<or> int_gt_float mw aw))"

text \<open>
  The loop, started at \<open>max_font_size\<close>. It returns the size at which it breaks, or
  the exception; where no size overflows it runs forever, which is the value \<open>None\<close>.
\<close>

partial_function (option) search_font_size ::
    "font \<Rightarrow> string list \<Rightarrow> pyfloat \<Rightarrow> pyfloat \<Rightarrow> int \<Rightarrow> (error + int) option" where
  "search_font_size font strings aw ah max_font_size =
     (case overflows font strings aw ah max_font_size of
        Inl e \<Rightarrow> Some (Inl e)
      | Inr stop \<Rightarrow>
          if stop then Some (Inr max_font_size)
          else search_font_size font strings aw ah (max_font_size + 1))"

declare search_font_size.simps [code]

text \<open>
  What the function has computed when it starts to draw (line 150): the selected
  font size, the height of the block at that size, the left edge and the top of the
  first line. The lines are then drawn from there downward, 10 units apart; those
  calls are pygame's and are not modelled.
\<close>

record text_layout =
  max_font_size :: int
  block_height :: int
  text_x :: pyfloat
  text_y :: pyfloat

definition draw_centered_text ::
    "font \<Rightarrow> string list \<Rightarrow> int \<Rightarrow> int \<Rightarrow> pyfloat \<Rightarrow> pyfloat \<Rightarrow> (error + text_layout) option" where
  "draw_centered_text font strings screen_width screen_height
       horizontal_padding vertical_padding =
     (case padded_viewport screen_width screen_height horizontal_padding vertical_padding of
        Inl e \<Rightarrow> Some (Inl e)
      | Inr v \<Rightarrow>
     (case search_font_size font strings (available_width v) (available_height v) 1 of
        None \<Rightarrow> None
      | Some (Inl e) \<Rightarrow> Some (Inl e)
      | Some (Inr stopped) \<Rightarrow>
     (case float_sub_int (available_height v) (total_height font (stopped - 1) strings) of
        Inl e \<Rightarrow> Some (Inl e)
      | Inr room \<Rightarrow>
          Some (Inr \<lparr>max_font_size = stopped - 1,
                     block_height = total_height font (stopped - 1) strings,
                     text_x = padding_x v,
                     text_y = float_add (padding_y v) (float_floordiv_2 room)\<rparr>))))"

subsection \<open>One frame of main\<close>

text \<open>
  Lines 189 to 195: the content of the current slide is drawn, as text when it is a
  list of lines and as an image otherwise, with both paddings \<^verbatim>\<open>0.1\<close>.
\<close>

datatype frame = Text_frame text_layout | Image_frame image_layout

definition draw_current_slide ::
    "font \<Rightarrow> presentation \<Rightarrow> int \<Rightarrow> int \<Rightarrow> (error + frame) option" where
  "draw_current_slide font pres screen_width screen_height =
     (case Presentation_get_current_slide pres of
        Inl e \<Rightarrow> Some (Inl e)
      | Inr s \<Rightarrow>
     (case Slide_get_content s of
        Lines ls \<Rightarrow>
          map_option (map_sum id Text_frame)
            (draw_centered_text font ls screen_width screen_height one_tenth one_tenth)
      | Image img \<Rightarrow>
          Some (map_sum id Image_frame
            (draw_centered_image_with_padding img screen_width screen_height
               one_tenth one_tenth))))"

subsection \<open>Vocabulary for the text search\<close>

text \<open>
  \<open>stops_at \<dots> start r k\<close>: started at \<open>start\<close>, the loop reaches size \<open>k\<close> with every size
  before it fitting, and leaves there with \<open>r\<close>, the size \<open>k\<close> when the block
  overflows at \<open>k\<close>, or the exception raised at \<open>k\<close>.
\<close>

definition stops_at ::
    "font \<Rightarrow> string list \<Rightarrow> pyfloat \<Rightarrow> pyfloat \<Rightarrow> int \<Rightarrow> error + int \<Rightarrow> int \<Rightarrow> bool" where
  "stops_at font strings aw ah start r k =
     (start \<le> k
      \<and> (\<forall>j. start \<le> j \<and> j < k \<longrightarrow> overflows font strings aw ah j = Inr False)
      \<and> (case r of
            Inr n \<Rightarrow> n = k \<and> overflows font strings aw ah k = Inr True
          | Inl e \<Rightarrow> overflows font strings aw ah k = Inl e))"

text \<open>
  \<open>block_no_smaller font strings m n\<close>: at size \<open>n\<close> the block is at least as high and
  at least as wide as at size \<open>m\<close>.
\<close>

definition block_no_smaller :: "font \<Rightarrow> string list \<Rightarrow> int \<Rightarrow> int \<Rightarrow> bool" where
  "block_no_smaller font strings m n =
     (total_height font m strings \<le> total_height font n strings
      \<and> (case max_width font m strings of
            Inl e \<Rightarrow> False
          | Inr wm \<Rightarrow>
              (case max_width font n strings of Inl e \<Rightarrow> False | Inr wn \<Rightarrow> wm \<le> wn)))"

text \<open>
  Two fonts to run the search on. \<open>pixel_font\<close> has glyphs 6 wide and 12 high at size
  1 and scales with the size; a size below 1 is taken as 1, as pygame does.
  \<open>uneven_font\<close> is square, one unit per size, except that its face of size 2 is
  100 wide.
\<close>

definition pixel_font :: font where
  "pixel_font font_size string =
     (max font_size 1 * 6 * int (length string), max font_size 1 * 12)"

definition uneven_font :: font where
  "uneven_font font_size string =
     (if font_size = 2 then 100 else font_size * int (length string), font_size)"

subsection \<open>Comparing the fitted size with the available space\<close>

text \<open>
  \<^verbatim>\<open>a <= b\<close> on floats, and the value of a Python number as Python compares it
  with a float: an int by its exact value.
\<close>

fun float_le :: "pyfloat \<Rightarrow> pyfloat \<Rightarrow> bool" where
  "float_le NaN b = False"
| "float_le a NaN = False"
| "float_le (Fin x) (Fin y) = (x \<le> y)"
| "float_le NInf b = True"
| "float_le a PInf = True"
| "float_le a b = False"

definition number_value :: "number \<Rightarrow> pyfloat" where
  "number_value n = (case n of Int_num i \<Rightarrow> Fin (of_int i) | Float_num a \<Rightarrow> a)"

section \<open>Properties\<close>

subsection \<open>Evaluating the parser\<close>

lemmas parse_unfold =
  parse_def split_sep_def startswith_def parse_paragraph_def removeprefix_def
  split_ws_def isspace_def list_index_def Slide_set_image_def Slide_init_def
  Slide_set_lines_def Presentation_add_slide_def Presentation_init_def text_slide_def

subsection \<open>Presentation navigation\<close>

text \<open>
  C4. Navigation clamps at both ends and never wraps: \<open>next\<close> sets the cursor to
  \<open>min (index + 1) (N - 1)\<close>, \<open>prev\<close> sets it to \<open>max (index - 1) 0\<close>, and a fresh
  presentation has cursor 0. For a presentation of three slides at index 0, \<open>prev\<close>
  leaves the cursor at 0 and three calls of \<open>next\<close> leave it at 2.
\<close>

theorem navigation_clamps:
  "current_slide (Presentation_next p) =
     min (current_slide p + 1) (int (length (slides p)) - 1)
   \<and> current_slide (Presentation_prev p) = max (current_slide p - 1) 0
   \<and> slides (Presentation_next p) = slides p
   \<and> slides (Presentation_prev p) = slides p
   \<and> current_slide Presentation_init = 0
   \<and> current_slide
        (Presentation_prev
          (Presentation_add_slide
            (Presentation_add_slide (Presentation_add_slide Presentation_init s1) s2) s3)) = 0
   \<and> current_slide
        (Presentation_next (Presentation_next (Presentation_next
          (Presentation_add_slide
            (Presentation_add_slide (Presentation_add_slide Presentation_init s1) s2) s3)))) = 2"
  by (simp add: Presentation_next_def Presentation_prev_def Presentation_init_def
      Presentation_add_slide_def)

lemma apply_operation_valid:
  "cursor_valid p \<Longrightarrow> cursor_valid (apply_operation p op)"
  by (cases op)
    (auto simp: cursor_valid_def Presentation_add_slide_def Presentation_next_def
      Presentation_prev_def)

lemma foldl_valid:
  "cursor_valid p \<Longrightarrow> cursor_valid (foldl apply_operation p ops)"
  by (induction ops arbitrary: p) (auto simp: apply_operation_valid)

lemma foldl_from_no_slide:
  "slides p = [] \<Longrightarrow> current_slide p = 0 \<Longrightarrow> \<not> next_before_first_slide ops \<Longrightarrow>
     slides (foldl apply_operation p ops) = [] \<or> cursor_valid (foldl apply_operation p ops)"
proof (induction ops arbitrary: p)
  case Nil
  then show ?case by simp
next
  case (Cons op ops)
  show ?case
  proof (cases op)
    case (Add_slide s)
    from Cons.prems have "cursor_valid (apply_operation p (Add_slide s))"
      by (simp add: cursor_valid_def Presentation_add_slide_def)
    then have "cursor_valid (foldl apply_operation (apply_operation p (Add_slide s)) ops)"
      by (rule foldl_valid)
    with Add_slide show ?thesis by simp
  next
    case Next
    with Cons.prems show ?thesis by simp
  next
    case Prev
    from Cons.prems Prev have "slides (Presentation_prev p) = []"
      and "current_slide (Presentation_prev p) = 0"
      and "\<not> next_before_first_slide ops"
      by (simp_all add: Presentation_prev_def)
    then have "slides (foldl apply_operation (Presentation_prev p) ops) = []
        \<or> cursor_valid (foldl apply_operation (Presentation_prev p) ops)"
      by (rule Cons.IH)
    with Prev show ?thesis by simp
  qed
qed

text \<open>
  The cursor on the runs in which \<open>next\<close> is not applied before the first \<open>add_slide\<close>
  (the program's own runs are of this kind: \<open>parse\<close> adds every slide before the first
  key is read): a presentation that is not empty has its cursor within \<open>0 .. N - 1\<close>, and
  \<open>get_current_slide\<close> returns the slide at the cursor.
\<close>

lemma cursor_valid_unless_next_before_first_slide:
  assumes "\<not> next_before_first_slide ops" and "slides (run_operations ops) \<noteq> []"
  shows "cursor_valid (run_operations ops)"
    and "Presentation_get_current_slide (run_operations ops) =
           Inr (slides (run_operations ops) ! nat (current_slide (run_operations ops)))"
proof -
  have "slides (run_operations ops) = [] \<or> cursor_valid (run_operations ops)"
    unfolding run_operations_def using assms(1)
    by (intro foldl_from_no_slide) (simp_all add: Presentation_init_def)
  with assms(2) show v: "cursor_valid (run_operations ops)"
    by simp
  then show "Presentation_get_current_slide (run_operations ops) =
      Inr (slides (run_operations ops) ! nat (current_slide (run_operations ops)))"
    by (simp add: cursor_valid_def Presentation_get_current_slide_def list_index_def)
qed


subsection \<open>The parser on the specification's examples\<close>

text \<open>
  C3, as the code has it. On \<^verbatim>\<open>"hello\nworld\n\n@pic.png extra"\<close> the parser loads the
  image at the path \<^verbatim>\<open>pic.png\<close>, the first token after the sigil. When the load
  raises, \<open>parse\<close> raises the same error; when it returns an image, \<open>parse\<close> returns
  two slides in file order: the text slide with lines hello, world, then the slide
  holding that image.
\<close>

theorem parse_text_then_image:
  "parse image_load ''hello\<newline>world\<newline>\<newline>@pic.png extra'' =
     (case image_load ''pic.png'' of
        Inl e \<Rightarrow> Inl e
      | Inr img \<Rightarrow>
          Inr \<lparr>slides = [text_slide [''hello'', ''world''],
                          \<lparr>slide_lines = [], slide_image = Some img\<rparr>],
                current_slide = 0\<rparr>)"
  by (simp add: parse_unfold split: sum.splits)

text \<open>
  C3 as stated fails where \<^verbatim>\<open>pic.png\<close> cannot be loaded: \<open>parse\<close> raises and
  produces no slide.
\<close>

theorem parse_text_then_image_missing_file:
  "parse no_images ''hello\<newline>world\<newline>\<newline>@pic.png extra'' = Inl FileNotFoundError"
  by (simp add: parse_unfold no_images_def)

text \<open>
  C8, as the code has it. The empty input gives one slide, a text slide with exactly
  one line, the empty line: \<^verbatim>\<open>"".split("\n")\<close> is \<^verbatim>\<open>[""]\<close>.
\<close>

theorem parse_empty_input:
  "parse image_load '''' = Inr \<lparr>slides = [text_slide ['''']], current_slide = 0\<rparr>"
  by (simp add: parse_unfold)

text \<open>C8 as stated fails: the slide of the empty input has a line.\<close>

theorem parse_empty_input_has_a_line:
  "parse no_images '''' = Inr \<lparr>slides = [text_slide ['''']], current_slide = 0\<rparr>
   \<and> slide_lines (text_slide ['''']) \<noteq> []
   \<and> parse no_images '''' \<noteq> Inr \<lparr>slides = [text_slide []], current_slide = 0\<rparr>"
  by (simp add: parse_unfold)

subsection \<open>Text paragraphs\<close>

lemma spec_lines_nonempty: "spec_lines s \<noteq> []"
  by (induction s) (auto split: list.splits)

lemma split_sep_from_newline:
  "split_sep_from ''\<newline>'' acc s = (rev acc @ hd (spec_lines s)) # tl (spec_lines s)"
  by (induction s arbitrary: acc)
    (auto simp: startswith_def spec_lines_nonempty split: list.splits)

lemma split_sep_newline: "split_sep s ''\<newline>'' = spec_lines s"
  using spec_lines_nonempty [of s] by (simp add: split_sep_def split_sep_from_newline)

lemma startswith_hash: "startswith l ''#'' = spec_is_comment l"
  by (cases l) (auto simp: startswith_def spec_is_comment_def)

lemma removeprefix_backslash: "removeprefix l [CHR 0x5C] = spec_unescape l"
  by (cases l) (auto simp: removeprefix_def startswith_def spec_unescape_def)

text \<open>
  C5. A paragraph that does not begin with \<open>@\<close> becomes the text slide whose lines are
  the paragraph's lines, those beginning with \<open>#\<close> dropped, one leading backslash
  stripped from each of the others. \<^verbatim>\<open>"#note\nvisible"\<close> gives the line visible, and
  a backslash before \<^verbatim>\<open>#literal\<close> gives the line \<^verbatim>\<open>#literal\<close>.
\<close>

theorem text_paragraph_lines:
  "(\<not> startswith par ''@'' \<longrightarrow>
      parse_paragraph image_load par =
        Inr (text_slide
              (map spec_unescape (filter (\<lambda>l. \<not> spec_is_comment l) (spec_lines par)))))
   \<and> parse image_load ''#note\<newline>visible'' =
        Inr \<lparr>slides = [text_slide [''visible'']], current_slide = 0\<rparr>
   \<and> parse image_load (CHR 0x5C # ''#literal'') =
        Inr \<lparr>slides = [text_slide [''#literal'']], current_slide = 0\<rparr>"
proof (intro conjI impI)
  assume "\<not> startswith par ''@''"
  then show "parse_paragraph image_load par =
      Inr (text_slide
            (map spec_unescape (filter (\<lambda>l. \<not> spec_is_comment l) (spec_lines par))))"
    by (simp add: parse_paragraph_def split_sep_newline startswith_hash
        removeprefix_backslash Slide_set_lines_def Slide_init_def text_slide_def)
next
  show "parse image_load ''#note\<newline>visible'' =
      Inr \<lparr>slides = [text_slide [''visible'']], current_slide = 0\<rparr>"
    by (simp add: parse_unfold)
next
  show "parse image_load (CHR 0x5C # ''#literal'') =
      Inr \<lparr>slides = [text_slide [''#literal'']], current_slide = 0\<rparr>"
    by (simp add: parse_unfold)
qed

text \<open>The theorem at the paragraph \<^verbatim>\<open>"#note\nvisible"\<close>.\<close>

theorem text_paragraph_lines_witness:
  "\<not> startswith ''#note\<newline>visible'' ''@''
   \<and> parse_paragraph no_images ''#note\<newline>visible'' = Inr (text_slide [''visible''])"
proof -
  have h: "\<not> startswith ''#note\<newline>visible'' ''@''"
    by (simp add: startswith_def)
  have ls: "map spec_unescape
      (filter (\<lambda>l. \<not> spec_is_comment l) (spec_lines ''#note\<newline>visible'')) = [''visible'']"
    by (simp add: spec_is_comment_def spec_unescape_def)
  from text_paragraph_lines [of "''#note\<newline>visible''" no_images] h
  have "parse_paragraph no_images ''#note\<newline>visible'' =
      Inr (text_slide (map spec_unescape
        (filter (\<lambda>l. \<not> spec_is_comment l) (spec_lines ''#note\<newline>visible''))))"
    by blast
  with h ls show ?thesis by simp
qed

subsection \<open>An image paragraph with no path\<close>

lemma split_ws_from_all_space: "list_all isspace s \<Longrightarrow> split_ws_from [] s = []"
  by (induction s) auto

lemma parse_paragraph_sigil_only:
  assumes "startswith par ''@''" and "list_all isspace (removeprefix par ''@'')"
  shows "parse_paragraph image_load par = Inl IndexError"
  using assms
  by (simp add: parse_paragraph_def split_ws_def split_ws_from_all_space list_index_def)

lemma list_index_error: "list_index xs i = Inl e \<Longrightarrow> e = IndexError"
  by (simp add: list_index_def split: if_splits)

lemma parse_paragraph_error:
  "parse_paragraph image_load par = Inl e \<Longrightarrow>
     e = IndexError
     \<or> (startswith par ''@''
        \<and> (\<exists>image_path. list_index (split_ws (removeprefix par ''@'')) 0 = Inr image_path
              \<and> image_load image_path = Inl e))"
  by (auto simp: parse_paragraph_def Slide_set_image_def
      split: if_splits sum.splits dest: list_index_error)

lemma parse_loop_first_failure:
  assumes "parse_paragraph image_load par = Inl e0"
  shows "\<exists>before q after e.
           pre @ [par] = before @ q # after
           \<and> (\<forall>r \<in> set before. \<exists>s. parse_paragraph image_load r = Inr s)
           \<and> parse_paragraph image_load q = Inl e
           \<and> (after = [] \<longrightarrow> e = e0)
           \<and> (\<forall>pres. parse_loop image_load pres (pre @ par # post) = Inl e)"
proof (induction pre)
  case Nil
  have "[] @ [par] = [] @ par # []
      \<and> (\<forall>r \<in> set []. \<exists>s. parse_paragraph image_load r = Inr s)
      \<and> parse_paragraph image_load par = Inl e0
      \<and> ([] = ([] :: string list) \<longrightarrow> e0 = e0)
      \<and> (\<forall>pres. parse_loop image_load pres ([] @ par # post) = Inl e0)"
    using assms by simp
  then show ?case by blast
next
  case (Cons a pre)
  show ?case
  proof (cases "parse_paragraph image_load a")
    case (Inl e)
    then have "(a # pre) @ [par] = [] @ a # (pre @ [par])
        \<and> (\<forall>r \<in> set []. \<exists>s. parse_paragraph image_load r = Inr s)
        \<and> parse_paragraph image_load a = Inl e
        \<and> (pre @ [par] = [] \<longrightarrow> e = e0)
        \<and> (\<forall>pres. parse_loop image_load pres ((a # pre) @ par # post) = Inl e)"
      by simp
    then show ?thesis by blast
  next
    case (Inr s)
    from Cons.IH obtain before q after e where
      1: "pre @ [par] = before @ q # after"
      and 2: "\<forall>r \<in> set before. \<exists>s. parse_paragraph image_load r = Inr s"
      and 3: "parse_paragraph image_load q = Inl e"
      and 4: "after = [] \<longrightarrow> e = e0"
      and 5: "\<forall>pres. parse_loop image_load pres (pre @ par # post) = Inl e"
      by blast
    from 1 2 3 4 5 Inr have "(a # pre) @ [par] = (a # before) @ q # after
        \<and> (\<forall>r \<in> set (a # before). \<exists>s. parse_paragraph image_load r = Inr s)
        \<and> parse_paragraph image_load q = Inl e
        \<and> (after = [] \<longrightarrow> e = e0)
        \<and> (\<forall>pres. parse_loop image_load pres ((a # pre) @ par # post) = Inl e)"
      by simp
    then show ?thesis by blast
  qed
qed

text \<open>
  C10, as the code has it. Let the paragraphs of the input be \<open>pre\<close>, then a paragraph
  \<open>par\<close> that begins with \<open>@\<close> and has only whitespace after it, then \<open>post\<close>. Then
  \<open>parse\<close> raises and returns no presentation, and the error is that of the first
  paragraph \<open>q\<close>, in file order, that raises: every paragraph before \<open>q\<close> gives a slide.
  The error is IndexError, unless \<open>q\<close> is an image paragraph that stands before \<open>par\<close>
  (\<open>after\<close>, the paragraphs from \<open>q\<close> up to \<open>par\<close>, is not empty) and whose image, the
  first token after the sigil, failed to load: then it is the loader's error.
\<close>

theorem parse_sigil_only_fails:
  assumes "split_sep text ''\<newline>\<newline>'' = pre @ par # post"
    and "startswith par ''@''"
    and "list_all isspace (removeprefix par ''@'')"
  shows "\<exists>before q after e.
           pre @ [par] = before @ q # after
           \<and> (\<forall>r \<in> set before. \<exists>s. parse_paragraph image_load r = Inr s)
           \<and> parse_paragraph image_load q = Inl e
           \<and> parse image_load text = Inl e
           \<and> (e = IndexError
              \<or> (after \<noteq> [] \<and> startswith q ''@''
                 \<and> (\<exists>image_path.
                       list_index (split_ws (removeprefix q ''@'')) 0 = Inr image_path
                       \<and> image_load image_path = Inl e)))"
proof -
  from assms(2,3) have "parse_paragraph image_load par = Inl IndexError"
    by (rule parse_paragraph_sigil_only)
  from parse_loop_first_failure [OF this, of pre post] obtain before q after e where
    1: "pre @ [par] = before @ q # after"
    and 2: "\<forall>r \<in> set before. \<exists>s. parse_paragraph image_load r = Inr s"
    and 3: "parse_paragraph image_load q = Inl e"
    and 4: "after = [] \<longrightarrow> e = IndexError"
    and 5: "\<forall>pres. parse_loop image_load pres (pre @ par # post) = Inl e"
    by blast
  from 5 assms(1) have 6: "parse image_load text = Inl e"
    by (simp add: parse_def)
  from parse_paragraph_error [OF 3] 4
  have "e = IndexError
      \<or> (after \<noteq> [] \<and> startswith q ''@''
         \<and> (\<exists>image_path.
               list_index (split_ws (removeprefix q ''@'')) 0 = Inr image_path
               \<and> image_load image_path = Inl e))"
    by blast
  with 1 2 3 6 show ?thesis by blast
qed

text \<open>
  The theorem at \<^verbatim>\<open>"@\n\n@nope.png"\<close>, where no image loads: the paragraph \<open>@\<close> comes
  first, and the error is IndexError, not the loader's.
\<close>

theorem parse_sigil_only_fails_witness:
  "split_sep ''@\<newline>\<newline>@nope.png'' ''\<newline>\<newline>'' = [] @ ''@'' # [''@nope.png'']
   \<and> startswith ''@'' ''@''
   \<and> list_all isspace (removeprefix ''@'' ''@'')
   \<and> parse no_images ''@\<newline>\<newline>@nope.png'' = Inl IndexError"
proof -
  have h1: "split_sep ''@\<newline>\<newline>@nope.png'' ''\<newline>\<newline>'' = [] @ ''@'' # [''@nope.png'']"
    by (simp add: split_sep_def startswith_def)
  have h2: "startswith ''@'' ''@''"
    by (simp add: startswith_def)
  have h3: "list_all isspace (removeprefix ''@'' ''@'')"
    by (simp add: removeprefix_def startswith_def)
  from parse_sigil_only_fails [OF h1 h2 h3, of no_images]
  have "parse no_images ''@\<newline>\<newline>@nope.png'' = Inl IndexError"
    by (auto simp: Cons_eq_append_conv)
  with h1 h2 h3 show ?thesis by blast
qed

text \<open>
  C10 as stated fails on \<^verbatim>\<open>"@nope.png\n\n@"\<close> where \<^verbatim>\<open>nope.png\<close> cannot be loaded: the
  input has the paragraph \<open>@\<close>, and \<open>parse\<close> raises the loader's error, not IndexError.
\<close>

theorem parse_sigil_only_after_missing_image:
  "''@'' \<in> set (split_sep ''@nope.png\<newline>\<newline>@'' ''\<newline>\<newline>'')
   \<and> parse no_images ''@nope.png\<newline>\<newline>@'' = Inl FileNotFoundError
   \<and> parse no_images ''@nope.png\<newline>\<newline>@'' \<noteq> Inl IndexError"
  by (simp add: parse_unfold no_images_def)

subsection \<open>Rounding to binary64\<close>

declare bit_length.simps [simp del]

lemma bit_length_upper: "n < 2 ^ bit_length n"
proof (induction n rule: bit_length.induct)
  case (1 n)
  show ?case
  proof (cases "n = 0")
    case True
    then show ?thesis by (simp add: bit_length.simps)
  next
    case False
    then have "n div 2 < 2 ^ bit_length (n div 2)" using 1 by simp
    then have "n < 2 * 2 ^ bit_length (n div 2)" by linarith
    with False show ?thesis by (simp add: bit_length.simps [of n])
  qed
qed

lemma bit_length_lower: "0 < n \<Longrightarrow> 2 ^ (bit_length n - 1) \<le> n"
proof (induction n rule: bit_length.induct)
  case (1 n)
  then have n: "n \<noteq> 0" by simp
  show ?case
  proof (cases "n div 2 = 0")
    case True
    then have "bit_length n = 1"
      using n by (simp add: bit_length.simps [of n] bit_length.simps [of 0])
    with 1 show ?thesis by simp
  next
    case False
    then have ih: "2 ^ (bit_length (n div 2) - 1) \<le> n div 2" using 1 n by simp
    have pos: "0 < bit_length (n div 2)"
      using False by (simp add: bit_length.simps [of "n div 2"])
    have "bit_length n - 1 = Suc (bit_length (n div 2) - 1)"
      using n pos by (simp add: bit_length.simps [of n])
    then have "(2::nat) ^ (bit_length n - 1) = 2 * 2 ^ (bit_length (n div 2) - 1)" by simp
    also have "\<dots> \<le> 2 * (n div 2)" using ih by simp
    also have "\<dots> \<le> n" by simp
    finally show ?thesis .
  qed
qed

lemma binary_exponent_lower:
  assumes "0 < a"
  shows "2 powi (binary_exponent a) \<le> a"
proof (cases "1 \<le> a")
  case True
  define n where "n = nat \<lfloor>a\<rfloor>"
  have n: "0 < n" using True by (simp add: n_def)
  have "rat_of_nat (2 ^ (bit_length n - 1)) \<le> rat_of_nat n"
    using bit_length_lower [OF n] of_nat_le_iff by blast
  also have "rat_of_nat n \<le> a" using True by (simp add: n_def)
  finally have le: "2 ^ (bit_length n - 1) \<le> a" by simp
  have "0 < bit_length n" using n by (simp add: bit_length.simps [of n])
  then have "int (bit_length n) - 1 = int (bit_length n - 1)" by simp
  moreover have "binary_exponent a = int (bit_length n) - 1"
    using True by (simp add: binary_exponent_def n_def)
  ultimately have "binary_exponent a = int (bit_length n - 1)" by linarith
  then have "2 powi (binary_exponent a) = (2::rat) ^ (bit_length n - 1)"
    by (simp only: power_int_of_nat)
  with le show ?thesis by simp
next
  case False
  define k where "k = bit_length (nat (\<lceil>1 / a\<rceil> - 1))"
  have "nat (\<lceil>1 / a\<rceil> - 1) < 2 ^ k" unfolding k_def by (rule bit_length_upper)
  then have "\<lceil>1 / a\<rceil> - 1 < 2 ^ k"
    by (metis nat_less_iff of_nat_numeral of_nat_power not_less zero_less_numeral
        zero_less_power order_less_trans linorder_not_less)
  then have "\<lceil>1 / a\<rceil> \<le> 2 ^ k" by simp
  then have "1 / a \<le> 2 ^ k" by (metis ceiling_le_iff of_int_numeral of_int_power)
  then have le: "1 / 2 ^ k \<le> a" using assms by (simp add: field_simps)
  have "binary_exponent a = - int k"
    using False by (simp add: binary_exponent_def k_def)
  then have "2 powi (binary_exponent a) = (1 / 2 ^ k :: rat)"
    by (simp add: power_int_minus_divide)
  with le show ?thesis by simp
qed

lemma binary_exponent_upper:
  assumes "0 < a"
  shows "a < 2 powi (binary_exponent a + 1)"
proof (cases "1 \<le> a")
  case True
  define n where "n = nat \<lfloor>a\<rfloor>"
  have "n < 2 ^ bit_length n" by (rule bit_length_upper)
  then have "n + 1 \<le> 2 ^ bit_length n" by simp
  then have "rat_of_nat (n + 1) \<le> rat_of_nat (2 ^ bit_length n)"
    using of_nat_le_iff by blast
  moreover have "a < rat_of_nat (n + 1)" using True by (simp add: n_def) linarith
  ultimately have lt: "a < 2 ^ bit_length n" by simp
  have "binary_exponent a + 1 = int (bit_length n)"
    using True by (simp add: binary_exponent_def n_def)
  then have "2 powi (binary_exponent a + 1) = (2::rat) ^ bit_length n"
    by (simp only: power_int_of_nat)
  with lt show ?thesis by simp
next
  case False
  then have a1: "a < 1" by simp
  define c where "c = \<lceil>1 / a\<rceil>"
  define k where "k = bit_length (nat (c - 1))"
  have c2: "2 \<le> c" using assms a1 by (simp add: c_def le_ceiling_iff field_simps)
  then have pos: "0 < nat (c - 1)" by simp
  have "2 ^ (k - 1) \<le> nat (c - 1)" unfolding k_def by (rule bit_length_lower [OF pos])
  then have "rat_of_nat (2 ^ (k - 1)) \<le> rat_of_nat (nat (c - 1))"
    using of_nat_le_iff by blast
  then have "2 ^ (k - 1) \<le> rat_of_int (c - 1)" using c2 by simp
  also have "rat_of_int (c - 1) < 1 / a" unfolding c_def by linarith
  finally have "2 ^ (k - 1) < 1 / a" .
  then have lt: "a < 1 / 2 ^ (k - 1)" using assms by (simp add: field_simps)
  have kpos: "0 < k" using pos by (simp add: k_def bit_length.simps [of "nat (c - 1)"])
  then have "- int k + 1 = - int (k - 1)" by simp
  moreover have "binary_exponent a = - int k"
    using False by (simp add: binary_exponent_def k_def c_def)
  ultimately have "binary_exponent a + 1 = - int (k - 1)" by linarith
  then have "2 powi (binary_exponent a + 1) = (1 / 2 ^ (k - 1) :: rat)"
    by (simp only: power_int_minus_divide power_int_of_nat)
  with lt show ?thesis by simp
qed

lemma pow2_less_iff: "(2::rat) powi m < 2 powi n \<longleftrightarrow> m < n"
proof
  assume lt: "(2::rat) powi m < 2 powi n"
  show "m < n"
  proof (rule ccontr)
    assume "\<not> m < n"
    then have "n \<le> m" by simp
    then have "(2::rat) powi n \<le> 2 powi m" by (rule power_int_increasing) simp
    with lt show False by simp
  qed
next
  assume "m < n"
  then show "(2::rat) powi m < 2 powi n" by (rule power_int_strict_increasing) simp
qed

lemma pow2_le_iff: "(2::rat) powi m \<le> 2 powi n \<longleftrightarrow> m \<le> n"
  using pow2_less_iff [of n m] by (simp add: not_less [symmetric])

lemma binary_exponent_eqI:
  assumes "2 powi e \<le> a" and "a < 2 powi (e + 1)"
  shows "binary_exponent a = e"
proof -
  have "(0::rat) < 2 powi e" by simp
  with assms(1) have pos: "0 < a" by linarith
  have "2 powi e < (2::rat) powi (binary_exponent a + 1)"
    using assms(1) binary_exponent_upper [OF pos] by (rule le_less_trans)
  then have 1: "e < binary_exponent a + 1" by (simp only: pow2_less_iff)
  have "2 powi (binary_exponent a) < (2::rat) powi (e + 1)"
    using binary_exponent_lower [OF pos] assms(2) by (rule le_less_trans)
  then have 2: "binary_exponent a < e + 1" by (simp only: pow2_less_iff)
  from 1 2 show ?thesis by simp
qed

lemma quantum_eqI:
  assumes "2 powi e \<le> a" and "a < 2 powi (e + 1)"
  shows "quantum a = 2 powi (max (e - 52) (- 1074))"
  using binary_exponent_eqI [OF assms] by (simp add: quantum_def)

text \<open>
  Evaluating a rounding: with the exponent \<open>e\<close> and the rounded significand \<open>m\<close>
  given, what is left is arithmetic on numerals.
\<close>

lemma round_magnitude_eqI:
  assumes "2 powi e \<le> x" and "x < 2 powi (e + 1)"
    and "round_half_even (x / 2 powi (max (e - 52) (- 1074))) = m"
    and "of_int m * 2 powi (max (e - 52) (- 1074)) = r"
  shows "round_magnitude x = r"
proof -
  have "quantum x = 2 powi (max (e - 52) (- 1074))" by (rule quantum_eqI [OF assms(1,2)])
  then show ?thesis using assms(3,4) by (simp add: round_magnitude_def)
qed

lemma round_double_pos_eqI:
  assumes "2 powi e \<le> x" and "x < 2 powi (e + 1)"
    and "round_half_even (x / 2 powi (max (e - 52) (- 1074))) = m"
    and "of_int m * 2 powi (max (e - 52) (- 1074)) = r" and "r < 2 ^ 1024"
  shows "round_double x = Fin r"
proof -
  have "(0::rat) < 2 powi e" by simp
  with assms(1) have pos: "0 < x" by linarith
  have "round_magnitude x = r" by (rule round_magnitude_eqI [OF assms(1-4)])
  with pos assms(5) show ?thesis by (simp add: round_double_def)
qed

lemma round_double_neg_eqI:
  assumes "2 powi e \<le> - x" and "- x < 2 powi (e + 1)"
    and "round_half_even (- x / 2 powi (max (e - 52) (- 1074))) = m"
    and "of_int m * 2 powi (max (e - 52) (- 1074)) = r" and "r < 2 ^ 1024"
  shows "round_double x = Fin (- r)"
proof -
  have "(0::rat) < 2 powi e" by simp
  with assms(1) have neg: "x < 0" by linarith
  have "round_magnitude (- x) = r" by (rule round_magnitude_eqI [OF assms(1-4)])
  with neg assms(5) show ?thesis by (simp add: round_double_def)
qed

lemma floor_numeral_div:
  "\<lfloor>(numeral a / numeral b :: rat)\<rfloor> = numeral a div numeral b"
  using floor_divide_of_int_eq [of "numeral a" "numeral b", where ?'a = rat] by simp

lemma floor_neg_numeral_div:
  "\<lfloor>(- (numeral a / numeral b) :: rat)\<rfloor> = - numeral a div numeral b"
  using floor_divide_of_int_eq [of "- numeral a" "numeral b", where ?'a = rat] by simp

lemmas float_eval = round_half_even_def floor_numeral_div floor_neg_numeral_div

subsection \<open>The viewports and roundings of the examples\<close>

lemma float_of_int_100: "float_of_int 100 = Inr (Fin 100)"
proof -
  have "round_double 100 = Fin 100"
    by (rule round_double_pos_eqI [where e = 6 and m = 7036874417766400])
      (simp_all add: float_eval)
  then show ?thesis by (simp add: float_of_int_def)
qed

lemma float_of_int_10: "float_of_int 10 = Inr (Fin 10)"
proof -
  have "round_double 10 = Fin 10"
    by (rule round_double_pos_eqI [where e = 3 and m = 5629499534213120])
      (simp_all add: float_eval)
  then show ?thesis by (simp add: float_of_int_def)
qed

lemma float_mul_100_one_tenth: "float_mul (Fin 100) one_tenth = Fin 10"
  unfolding one_tenth_def float_mul.simps
  by (rule round_double_pos_eqI [where e = 3 and m = 5629499534213120])
    (simp_all add: float_eval)

lemma float_mul_10_one_tenth: "float_mul (Fin 10) one_tenth = Fin 1"
  unfolding one_tenth_def float_mul.simps
  by (rule round_double_pos_eqI [where e = 0 and m = 4503599627370496])
    (simp_all add: float_eval)

lemma round_double_20: "round_double 20 = Fin 20"
  by (rule round_double_pos_eqI [where e = 4 and m = 5629499534213120])
    (simp_all add: float_eval)

lemma round_double_80: "round_double 80 = Fin 80"
  by (rule round_double_pos_eqI [where e = 6 and m = 5629499534213120])
    (simp_all add: float_eval)

lemma round_double_2: "round_double 2 = Fin 2"
  by (rule round_double_pos_eqI [where e = 1 and m = 4503599627370496])
    (simp_all add: float_eval)

lemma round_double_8: "round_double 8 = Fin 8"
  by (rule round_double_pos_eqI [where e = 3 and m = 4503599627370496])
    (simp_all add: float_eval)

lemma round_double_1: "round_double 1 = Fin 1"
  by (rule round_double_pos_eqI [where e = 0 and m = 4503599627370496])
    (simp_all add: float_eval)

lemma padded_viewport_100:
  "padded_viewport 100 100 one_tenth one_tenth =
     Inr \<lparr>padding_x = Fin 10, padding_y = Fin 10,
          available_width = Fin 80, available_height = Fin 80\<rparr>"
  by (simp add: padded_viewport_def int_mul_float_def int_sub_float_def float_sub_def
      float_of_int_100 float_mul_100_one_tenth round_double_20 round_double_80)

lemma padded_viewport_10:
  "padded_viewport 10 10 one_tenth one_tenth =
     Inr \<lparr>padding_x = Fin 1, padding_y = Fin 1,
          available_width = Fin 8, available_height = Fin 8\<rparr>"
  by (simp add: padded_viewport_def int_mul_float_def int_sub_float_def float_sub_def
      float_of_int_10 float_mul_10_one_tenth round_double_2 round_double_8)

lemma float_of_int_72: "float_of_int 72 = Inr (Fin 72)"
proof -
  have "round_double 72 = Fin 72"
    by (rule round_double_pos_eqI [where e = 6 and m = 5066549580791808])
      (simp_all add: float_eval)
  then show ?thesis by (simp add: float_of_int_def)
qed

lemma float_of_int_12: "float_of_int 12 = Inr (Fin 12)"
proof -
  have "round_double 12 = Fin 12"
    by (rule round_double_pos_eqI [where e = 3 and m = 6755399441055744])
      (simp_all add: float_eval)
  then show ?thesis by (simp add: float_of_int_def)
qed

lemma float_of_int_1: "float_of_int 1 = Inr (Fin 1)"
  using round_double_1 by (simp add: float_of_int_def)

lemma round_double_14: "round_double 14 = Fin 14"
  by (rule round_double_pos_eqI [where e = 3 and m = 7881299347898368])
    (simp_all add: float_eval)

lemma round_double_7: "round_double 7 = Fin 7"
  by (rule round_double_pos_eqI [where e = 2 and m = 7881299347898368])
    (simp_all add: float_eval)

lemma round_double_4: "round_double 4 = Fin 4"
  by (rule round_double_pos_eqI [where e = 2 and m = 4503599627370496])
    (simp_all add: float_eval)

lemma round_double_minus_4: "round_double (- 4) = Fin (- 4)"
  using round_double_neg_eqI [where x = "- 4" and e = 2 and m = 4503599627370496 and r = 4]
  by (simp add: float_eval)

lemma round_double_minus_1: "round_double (- 1) = Fin (- 1)"
  using round_double_neg_eqI [where x = "- 1" and e = 0 and m = 4503599627370496 and r = 1]
  by (simp add: float_eval)

lemma int_truediv_2_3:
  "int_truediv 2 3 = Inr (Fin (6004799503160661 / 9007199254740992))"
proof -
  have "round_double (2 / 3) = Fin (6004799503160661 / 9007199254740992)"
    by (rule round_double_pos_eqI [where e = "- 1" and m = 6004799503160661])
      (simp_all add: float_eval)
  then show ?thesis by (simp add: int_truediv_def)
qed

lemma round_double_80_two_thirds:
  "round_double (30023997515803305 / 562949953421312) =
     Fin (3752999689475413 / 70368744177664)"
  by (rule round_double_pos_eqI [where e = 5 and m = 7505999378950826])
    (simp_all add: float_eval)

lemma float_mul_80_two_thirds:
  "float_mul (Fin 80) (Fin (6004799503160661 / 9007199254740992)) =
     Fin (3752999689475413 / 70368744177664)"
  by (simp add: round_double_80_two_thirds)

lemma trunc_53: "trunc_toward_zero (3752999689475413 / 70368744177664) = 53"
  by (simp add: trunc_toward_zero_def floor_numeral_div)

subsection \<open>The font size search\<close>

lemma search_stop:
  "overflows font strings aw ah n = Inr True \<Longrightarrow>
     search_font_size font strings aw ah n = Some (Inr n)"
  by (subst search_font_size.simps) simp

lemma search_step:
  "overflows font strings aw ah n = Inr False \<Longrightarrow>
     search_font_size font strings aw ah n = search_font_size font strings aw ah (n + 1)"
  by (subst search_font_size.simps) simp

lemma search_raise:
  "overflows font strings aw ah n = Inl e \<Longrightarrow>
     search_font_size font strings aw ah n = Some (Inl e)"
  by (subst search_font_size.simps) simp

lemma search_returns:
  "start \<le> k \<Longrightarrow> overflows font strings aw ah k \<noteq> Inr False \<Longrightarrow>
     \<exists>r. search_font_size font strings aw ah start = Some r"
proof (induction "nat (k - start)" arbitrary: start)
  case 0
  then have "start = k" by simp
  with 0 show ?case
    by (cases "overflows font strings aw ah k") (auto simp: search_raise search_stop)
next
  case (Suc d)
  show ?case
  proof (cases "overflows font strings aw ah start")
    case (Inl e)
    then show ?thesis by (simp add: search_raise)
  next
    case (Inr stop)
    show ?thesis
    proof (cases stop)
      case True
      with Inr show ?thesis by (simp add: search_stop)
    next
      case False
      with Inr have step: "search_font_size font strings aw ah start =
          search_font_size font strings aw ah (start + 1)"
        by (simp add: search_step)
      have "start \<noteq> k" using Inr False Suc.prems(2) by auto
      with Suc.prems(1) have "start + 1 \<le> k" by simp
      moreover have "d = nat (k - (start + 1))" using Suc.hyps(2) by linarith
      ultimately have "\<exists>r. search_font_size font strings aw ah (start + 1) = Some r"
        using Suc.hyps(1) Suc.prems(2) by blast
      with step show ?thesis by simp
    qed
  qed
qed

lemma stops_at_here:
  "overflows font strings aw ah start = Inl e \<Longrightarrow>
     stops_at font strings aw ah start (Inl e) start"
  "overflows font strings aw ah start = Inr True \<Longrightarrow>
     stops_at font strings aw ah start (Inr start) start"
  by (auto simp: stops_at_def)

lemma stops_at_later:
  assumes "overflows font strings aw ah start = Inr False"
    and "stops_at font strings aw ah (start + 1) r k"
  shows "stops_at font strings aw ah start r k"
proof -
  have "overflows font strings aw ah j = Inr False" if "start \<le> j \<and> j < k" for j
    using that assms by (cases "j = start") (auto simp: stops_at_def)
  with assms(2) show ?thesis by (simp add: stops_at_def)
qed

lemma search_sound:
  assumes "search_font_size font strings aw ah start = Some r"
  shows "\<exists>k. stops_at font strings aw ah start r k"
proof (rule search_font_size.raw_induct
    [where P = "\<lambda>font strings aw ah start r. \<exists>k. stops_at font strings aw ah start r k",
     OF _ assms])
  fix f font strings aw ah start r
  assume ih: "\<And>strings aw ah start b y. f strings aw ah start b = Some y \<Longrightarrow>
      \<exists>k. stops_at strings aw ah start b y k"
    and eq: "(case overflows font strings aw ah start of
        Inl e \<Rightarrow> Some (Inl e)
      | Inr stop \<Rightarrow> if stop then Some (Inr start) else f font strings aw ah (start + 1)) =
      Some r"
  show "\<exists>k. stops_at font strings aw ah start r k"
  proof (cases "overflows font strings aw ah start")
    case (Inl e)
    with eq have "r = Inl e" by simp
    with Inl show ?thesis using stops_at_here(1) by blast
  next
    case (Inr stop)
    show ?thesis
    proof (cases stop)
      case True
      with Inr eq have "r = Inr start" by simp
      moreover have "overflows font strings aw ah start = Inr True" using Inr True by simp
      ultimately show ?thesis using stops_at_here(2) by blast
    next
      case False
      with Inr eq have "f font strings aw ah (start + 1) = Some r" by simp
      from ih [OF this] obtain k where "stops_at font strings aw ah (start + 1) r k"
        by blast
      moreover have "overflows font strings aw ah start = Inr False" using Inr False by simp
      ultimately show ?thesis using stops_at_later by blast
    qed
  qed
qed

lemma int_gt_float_mono: "i \<le> j \<Longrightarrow> int_gt_float i b \<Longrightarrow> int_gt_float j b"
  by (cases b) (auto simp: int_gt_float_def)

lemma overflows_no_smaller:
  assumes "overflows font strings aw ah m = Inr True"
    and "block_no_smaller font strings m n"
  shows "overflows font strings aw ah n = Inr True"
proof -
  from assms(2) obtain wm wn where w: "max_width font m strings = Inr wm"
      "max_width font n strings = Inr wn" "wm \<le> wn"
    and h: "total_height font m strings \<le> total_height font n strings"
    by (auto simp: block_no_smaller_def split: sum.splits)
  from assms(1) w(1) have "int_gt_float (total_height font m strings) ah \<or> int_gt_float wm aw"
    by (simp add: overflows_def)
  then have "int_gt_float (total_height font n strings) ah \<or> int_gt_float wn aw"
    using int_gt_float_mono [OF h] int_gt_float_mono [OF w(3)] by blast
  with w(2) show ?thesis by (simp add: overflows_def)
qed

lemma draw_centered_text_size:
  assumes "padded_viewport screen_width screen_height hp vp = Inr v"
    and "draw_centered_text font strings screen_width screen_height hp vp = Some (Inr layout)"
  shows "search_font_size font strings (available_width v) (available_height v) 1 =
     Some (Inr (max_font_size layout + 1))"
  using assms
  by (auto simp: draw_centered_text_def split: option.splits sum.splits)

text \<open>
  C1, as the code has it. With the viewport computed, whenever
  \<open>draw_centered_text\<close> returns a layout, the size after the selected one is the first
  size from 1 upward at which the block overflows: it overflows (in total height
  or in max width), and every size from 1 up to the selected one fits. So the
  selected size fits when it is at least 1; it is 0, a size the search never
  measured, when size 1 overflows. A larger size overflows too when its block is no
  smaller than the block at the first overflowing size. The search stops, and the
  function returns, as soon as some size from 1 upward overflows or raises.
\<close>

theorem font_size_search_stops_at_first_overflow:
  assumes "padded_viewport screen_width screen_height hp vp = Inr v"
  shows "(\<forall>layout.
            draw_centered_text font strings screen_width screen_height hp vp = Some (Inr layout) \<longrightarrow>
              0 \<le> max_font_size layout
            \<and> overflows font strings (available_width v) (available_height v)
                  (max_font_size layout + 1) = Inr True
            \<and> (\<forall>j. 1 \<le> j \<and> j \<le> max_font_size layout \<longrightarrow>
                  overflows font strings (available_width v) (available_height v) j = Inr False)
            \<and> (\<forall>n. max_font_size layout < n
                    \<and> block_no_smaller font strings (max_font_size layout + 1) n \<longrightarrow>
                  overflows font strings (available_width v) (available_height v) n = Inr True))
       \<and> (\<forall>k. 1 \<le> k
              \<and> overflows font strings (available_width v) (available_height v) k \<noteq> Inr False \<longrightarrow>
            (\<exists>r. draw_centered_text font strings screen_width screen_height hp vp = Some r))"
proof (intro conjI allI impI)
  fix layout
  assume "draw_centered_text font strings screen_width screen_height hp vp = Some (Inr layout)"
  with assms have "search_font_size font strings (available_width v) (available_height v) 1 =
      Some (Inr (max_font_size layout + 1))"
    by (rule draw_centered_text_size)
  then obtain k where "stops_at font strings (available_width v) (available_height v) 1
      (Inr (max_font_size layout + 1)) k"
    using search_sound by blast
  then have k: "1 \<le> max_font_size layout + 1"
    and fits: "\<forall>j. 1 \<le> j \<and> j < max_font_size layout + 1 \<longrightarrow>
      overflows font strings (available_width v) (available_height v) j = Inr False"
    and over: "overflows font strings (available_width v) (available_height v)
      (max_font_size layout + 1) = Inr True"
    by (auto simp: stops_at_def)
  from k show "0 \<le> max_font_size layout" by simp
  from over show "overflows font strings (available_width v) (available_height v)
      (max_font_size layout + 1) = Inr True" .
  show "overflows font strings (available_width v) (available_height v) j = Inr False"
    if "1 \<le> j \<and> j \<le> max_font_size layout" for j
    using that fits by simp
  show "overflows font strings (available_width v) (available_height v) n = Inr True"
    if "max_font_size layout < n \<and> block_no_smaller font strings (max_font_size layout + 1) n"
    for n
    using that over overflows_no_smaller by blast
next
  fix k
  assume "1 \<le> k
    \<and> overflows font strings (available_width v) (available_height v) k \<noteq> Inr False"
  then obtain r where "search_font_size font strings (available_width v) (available_height v) 1 =
      Some r"
    using search_returns by blast
  with assms show "\<exists>r. draw_centered_text font strings screen_width screen_height hp vp = Some r"
    by (auto simp: draw_centered_text_def split: sum.splits)
qed

lemmas overflows_eval =
  overflows_def max_width_def py_max_def total_height_def int_gt_float_def

lemma search_pixel_font_hi:
  "search_font_size pixel_font [''hi''] (Fin 80) (Fin 80) 1 = Some (Inr 7)"
  by (simp add: search_step search_stop overflows_eval pixel_font_def)

lemma draw_pixel_font_hi:
  "draw_centered_text pixel_font [''hi''] 100 100 one_tenth one_tenth =
     Some (Inr \<lparr>max_font_size = 6, block_height = 72, text_x = Fin 10, text_y = Fin 14\<rparr>)"
proof -
  have th: "total_height pixel_font 6 [''hi''] = 72"
    by (simp add: total_height_def pixel_font_def)
  have room: "float_sub_int (Fin 80) 72 = Inr (Fin 8)"
    by (simp add: float_sub_int_def float_of_int_72 float_sub_def round_double_8)
  show ?thesis
    by (simp add: draw_centered_text_def padded_viewport_100 search_pixel_font_hi th room
        round_double_14)
qed

text \<open>
  The theorem at the line \<^verbatim>\<open>hi\<close> in \<open>pixel_font\<close> on a 100 by 100 screen with
  paddings 0.1: the available space is 80 by 80, the function returns with size 6
  selected, and size 7, 84 high, overflows.
\<close>

theorem font_size_search_stops_at_first_overflow_witness:
  "padded_viewport 100 100 one_tenth one_tenth =
     Inr \<lparr>padding_x = Fin 10, padding_y = Fin 10,
          available_width = Fin 80, available_height = Fin 80\<rparr>
   \<and> draw_centered_text pixel_font [''hi''] 100 100 one_tenth one_tenth =
       Some (Inr \<lparr>max_font_size = 6, block_height = 72, text_x = Fin 10, text_y = Fin 14\<rparr>)
   \<and> overflows pixel_font [''hi''] (Fin 80) (Fin 80) 7 = Inr True
   \<and> overflows pixel_font [''hi''] (Fin 80) (Fin 80) 6 = Inr False
   \<and> block_no_smaller pixel_font [''hi''] 7 9
   \<and> overflows pixel_font [''hi''] (Fin 80) (Fin 80) 9 = Inr True"
proof -
  note t = font_size_search_stops_at_first_overflow [OF padded_viewport_100,
      of pixel_font "[''hi'']"]
  from t draw_pixel_font_hi
  have over: "overflows pixel_font [''hi''] (Fin 80) (Fin 80) 7 = Inr True"
    and fits: "\<forall>j. 1 \<le> j \<and> j \<le> 6 \<longrightarrow>
      overflows pixel_font [''hi''] (Fin 80) (Fin 80) j = Inr False"
    and above: "\<forall>n. 6 < n \<and> block_no_smaller pixel_font [''hi''] 7 n \<longrightarrow>
      overflows pixel_font [''hi''] (Fin 80) (Fin 80) n = Inr True"
    by auto
  have b: "block_no_smaller pixel_font [''hi''] 7 9"
    by (simp add: block_no_smaller_def overflows_eval pixel_font_def)
  from fits have "overflows pixel_font [''hi''] (Fin 80) (Fin 80) 6 = Inr False" by simp
  moreover from above b have "overflows pixel_font [''hi''] (Fin 80) (Fin 80) 9 = Inr True"
    by simp
  ultimately show ?thesis using padded_viewport_100 draw_pixel_font_hi over b by simp
qed

lemma search_pixel_font_hello:
  "search_font_size pixel_font [''hello''] (Fin 8) (Fin 8) 1 = Some (Inr 1)"
  by (simp add: search_stop overflows_eval pixel_font_def)

lemma draw_pixel_font_hello:
  "draw_centered_text pixel_font [''hello''] 10 10 one_tenth one_tenth =
     Some (Inr \<lparr>max_font_size = 0, block_height = 12, text_x = Fin 1, text_y = Fin (- 1)\<rparr>)"
proof -
  have th: "total_height pixel_font 0 [''hello''] = 12"
    by (simp add: total_height_def pixel_font_def)
  have room: "float_sub_int (Fin 8) 12 = Inr (Fin (- 4))"
    by (simp add: float_sub_int_def float_of_int_12 float_sub_def round_double_minus_4)
  show ?thesis
    by (simp add: draw_centered_text_def padded_viewport_10 search_pixel_font_hello th room
        round_double_minus_1)
qed

lemma search_uneven_font_a:
  "search_font_size uneven_font [''a''] (Fin 8) (Fin 8) 1 = Some (Inr 2)"
  by (simp add: search_step search_stop overflows_eval uneven_font_def)

lemma draw_uneven_font_a:
  "draw_centered_text uneven_font [''a''] 10 10 one_tenth one_tenth =
     Some (Inr \<lparr>max_font_size = 1, block_height = 1, text_x = Fin 1, text_y = Fin 4\<rparr>)"
proof -
  have th: "total_height uneven_font 1 [''a''] = 1"
    by (simp add: total_height_def uneven_font_def)
  have room: "float_sub_int (Fin 8) 1 = Inr (Fin 7)"
    by (simp add: float_sub_int_def float_of_int_1 float_sub_def round_double_7)
  show ?thesis
    by (simp add: draw_centered_text_def padded_viewport_10 search_uneven_font_a th room
        floor_numeral_div round_double_4)
qed

text \<open>
  C1 as stated fails in two ways, both on a 10 by 10 screen with paddings 0.1,
  where the available space is 8 by 8. The line \<^verbatim>\<open>hello\<close> in \<open>pixel_font\<close> is 12 high
  at size 1: the search breaks at once, size 0 is selected, and the block at size
  0 overflows. The line \<^verbatim>\<open>a\<close> in \<open>uneven_font\<close> overflows at size 2, so size 1 is
  selected, and the larger size 3 fits.
\<close>

theorem selected_size_overflows_or_larger_size_fits:
  "draw_centered_text pixel_font [''hello''] 10 10 one_tenth one_tenth =
     Some (Inr \<lparr>max_font_size = 0, block_height = 12, text_x = Fin 1, text_y = Fin (- 1)\<rparr>)
   \<and> overflows pixel_font [''hello''] (Fin 8) (Fin 8) 0 = Inr True
   \<and> draw_centered_text uneven_font [''a''] 10 10 one_tenth one_tenth =
       Some (Inr \<lparr>max_font_size = 1, block_height = 1, text_x = Fin 1, text_y = Fin 4\<rparr>)
   \<and> overflows uneven_font [''a''] (Fin 8) (Fin 8) 3 = Inr False"
  by (simp add: draw_pixel_font_hello draw_uneven_font_a overflows_eval pixel_font_def
      uneven_font_def)

subsection \<open>Text fitting with no line\<close>

lemma search_no_lines: "search_font_size font [] aw ah n = Some (Inl ValueError)"
  by (simp add: search_raise overflows_def max_width_def py_max_def)

lemma draw_centered_text_no_lines:
  "draw_centered_text font [] screen_width screen_height hp vp =
     (case padded_viewport screen_width screen_height hp vp of
        Inl e \<Rightarrow> Some (Inl e)
      | Inr v \<Rightarrow> Some (Inl ValueError))"
  by (simp add: draw_centered_text_def search_no_lines split: sum.splits)

lemma all_comments_not_sigil:
  "list_all spec_is_comment (spec_lines par) \<Longrightarrow> \<not> startswith par ''@''"
  by (cases par) (auto simp: spec_is_comment_def startswith_def split: list.splits if_splits)

lemma filter_all_comments:
  "list_all spec_is_comment ls \<Longrightarrow> filter (\<lambda>l. \<not> spec_is_comment l) ls = []"
  by (induction ls) auto

text \<open>
  C9. On an empty list of lines the maximum of the widths is taken over no
  element and raises ValueError, at any size, so the search raises it in its first
  turn and \<open>draw_centered_text\<close> fails: with that ValueError, or before it with the
  error of a screen size too large for a float. The empty list is reachable: a
  paragraph whose lines all begin with \<open>#\<close> parses to a slide with no line, as
  \<^verbatim>\<open>"#a\n#b"\<close> does, and drawing that slide on a 100 by 100 screen raises ValueError.
\<close>

theorem text_fitting_fails_on_no_lines:
  "max_width font n [] = Inl ValueError
   \<and> search_font_size font [] aw ah n = Some (Inl ValueError)
   \<and> draw_centered_text font [] screen_width screen_height hp vp =
       (case padded_viewport screen_width screen_height hp vp of
          Inl e \<Rightarrow> Some (Inl e)
        | Inr v \<Rightarrow> Some (Inl ValueError))
   \<and> (list_all spec_is_comment (spec_lines par) \<longrightarrow>
         parse_paragraph image_load par = Inr (text_slide []))
   \<and> parse image_load ''#a\<newline>#b'' = Inr \<lparr>slides = [text_slide []], current_slide = 0\<rparr>
   \<and> draw_current_slide font \<lparr>slides = [text_slide []], current_slide = 0\<rparr> 100 100 =
       Some (Inl ValueError)"
proof (intro conjI impI)
  show "max_width font n [] = Inl ValueError"
    by (simp add: max_width_def py_max_def)
  show "search_font_size font [] aw ah n = Some (Inl ValueError)"
    by (rule search_no_lines)
  show "draw_centered_text font [] screen_width screen_height hp vp =
      (case padded_viewport screen_width screen_height hp vp of
         Inl e \<Rightarrow> Some (Inl e)
       | Inr v \<Rightarrow> Some (Inl ValueError))"
    by (rule draw_centered_text_no_lines)
  show "parse image_load ''#a\<newline>#b'' = Inr \<lparr>slides = [text_slide []], current_slide = 0\<rparr>"
    by (simp add: parse_unfold)
  show "draw_current_slide font \<lparr>slides = [text_slide []], current_slide = 0\<rparr> 100 100 =
      Some (Inl ValueError)"
    by (simp add: draw_current_slide_def Presentation_get_current_slide_def list_index_def
        Slide_get_content_def text_slide_def draw_centered_text_no_lines padded_viewport_100)
next
  assume all: "list_all spec_is_comment (spec_lines par)"
  then have "\<not> startswith par ''@''" by (rule all_comments_not_sigil)
  then have "parse_paragraph image_load par =
      Inr (text_slide (map spec_unescape
        (filter (\<lambda>l. \<not> spec_is_comment l) (spec_lines par))))"
    by (simp add: parse_paragraph_def split_sep_newline startswith_hash
        removeprefix_backslash Slide_set_lines_def Slide_init_def text_slide_def)
  with all show "parse_paragraph image_load par = Inr (text_slide [])"
    by (simp add: filter_all_comments)
qed

text \<open>The theorem at the paragraph \<^verbatim>\<open>"#a\n#b"\<close>, both of whose lines are comments.\<close>

theorem text_fitting_fails_on_no_lines_witness:
  "list_all spec_is_comment (spec_lines ''#a\<newline>#b'')
   \<and> parse_paragraph no_images ''#a\<newline>#b'' = Inr (text_slide [])
   \<and> draw_current_slide pixel_font \<lparr>slides = [text_slide []], current_slide = 0\<rparr> 100 100 =
       Some (Inl ValueError)"
proof -
  have h: "list_all spec_is_comment (spec_lines ''#a\<newline>#b'')"
    by (simp add: spec_is_comment_def)
  note t = text_fitting_fails_on_no_lines [of pixel_font _ _ _ _ _ _ _ "''#a\<newline>#b''" no_images]
  from t h have "parse_paragraph no_images ''#a\<newline>#b'' = Inr (text_slide [])" by blast
  moreover from t have "draw_current_slide pixel_font
      \<lparr>slides = [text_slide []], current_slide = 0\<rparr> 100 100 = Some (Inl ValueError)"
    by blast
  ultimately show ?thesis using h by blast
qed

subsection \<open>Image fitting\<close>

lemma draw_image_2_3:
  "draw_centered_image_with_padding \<lparr>surf_width = 2, surf_height = 3\<rparr> 100 100
       one_tenth one_tenth =
     Inr \<lparr>new_width = Int_num 53, new_height = Float_num (Fin 80),
          image_width = 53, image_height = 80, image_x = 23, image_y = 10\<rparr>"
proof -
  have ratio: "float_truediv (Fin 80) (Fin 80) = Inr (Fin 1)"
    by (simp add: float_truediv_def round_double_1)
  have fit: "fit_image (Fin 80) (Fin 80) \<lparr>surf_width = 2, surf_height = 3\<rparr> =
      Inr (Int_num 53, Float_num (Fin 80))"
    by (simp add: fit_image_def int_truediv_2_3 ratio round_double_80_two_thirds trunc_53)
  have scale: "transform_scale \<lparr>surf_width = 2, surf_height = 3\<rparr>
      (Int_num 53, Float_num (Fin 80)) = Inr \<lparr>surf_width = 53, surf_height = 80\<rparr>"
    by (simp add: transform_scale_def size_component_def trunc_toward_zero_def)
  show ?thesis
    by (simp add: draw_centered_image_with_padding_def padded_viewport_100 fit scale)
qed

text \<open>
  C2, as the code has it. When the function returns, the viewport, the aspect
  ratio (the float quotient of the image's width and height) and the float quotient
  of the available width and height were computed. When that quotient is greater
  than the aspect ratio, \<^verbatim>\<open>new_height\<close> is the available height and \<^verbatim>\<open>new_width\<close> is the
  float product of it and the aspect ratio, truncated to an int; otherwise
  \<^verbatim>\<open>new_width\<close> is the available width and \<^verbatim>\<open>new_height\<close> is the float quotient of it
  and the aspect ratio, truncated to an int. The image is scaled to the integer
  parts of the two, and placed at the floor of half the difference between the
  screen's size and the scaled image's size, on each axis.
\<close>

theorem image_fit_and_centering:
  assumes "draw_centered_image_with_padding img screen_width screen_height hp vp = Inr layout"
  shows "\<exists>v aspect_ratio ratio.
      padded_viewport screen_width screen_height hp vp = Inr v
    \<and> int_truediv (surf_width img) (surf_height img) = Inr aspect_ratio
    \<and> float_truediv (available_width v) (available_height v) = Inr ratio
    \<and> (if float_gt ratio aspect_ratio
       then new_height layout = Float_num (available_height v)
          \<and> (\<exists>w. int_of_float (float_mul (available_height v) aspect_ratio) = Inr w
                \<and> new_width layout = Int_num w)
       else new_width layout = Float_num (available_width v)
          \<and> (\<exists>q h. float_truediv (available_width v) aspect_ratio = Inr q
                \<and> int_of_float q = Inr h
                \<and> new_height layout = Int_num h))
    \<and> size_component (new_width layout) = Inr (image_width layout)
    \<and> size_component (new_height layout) = Inr (image_height layout)
    \<and> 0 \<le> image_width layout \<and> 0 \<le> image_height layout
    \<and> image_x layout = (screen_width - image_width layout) div 2
    \<and> image_y layout = (screen_height - image_height layout) div 2"
proof -
  from assms obtain v dims scaled where
    v: "padded_viewport screen_width screen_height hp vp = Inr v"
    and fit: "fit_image (available_width v) (available_height v) img = Inr dims"
    and scale: "transform_scale img dims = Inr scaled"
    and layout: "layout = \<lparr>new_width = fst dims, new_height = snd dims,
        image_width = surf_width scaled, image_height = surf_height scaled,
        image_x = (screen_width - surf_width scaled) div 2,
        image_y = (screen_height - surf_height scaled) div 2\<rparr>"
    by (auto simp: draw_centered_image_with_padding_def split: sum.splits)
  from fit obtain aspect_ratio ratio where
    ar: "int_truediv (surf_width img) (surf_height img) = Inr aspect_ratio"
    and ratio: "float_truediv (available_width v) (available_height v) = Inr ratio"
    by (auto simp: fit_image_def split: sum.splits)
  from fit ar ratio have branch:
    "if float_gt ratio aspect_ratio
     then snd dims = Float_num (available_height v)
        \<and> (\<exists>w. int_of_float (float_mul (available_height v) aspect_ratio) = Inr w
              \<and> fst dims = Int_num w)
     else fst dims = Float_num (available_width v)
        \<and> (\<exists>q h. float_truediv (available_width v) aspect_ratio = Inr q
              \<and> int_of_float q = Inr h
              \<and> snd dims = Int_num h)"
    by (auto simp: fit_image_def split: sum.splits if_splits)
  from scale have sz: "size_component (fst dims) = Inr (surf_width scaled)"
    "size_component (snd dims) = Inr (surf_height scaled)"
    "0 \<le> surf_width scaled" "0 \<le> surf_height scaled"
    by (auto simp: transform_scale_def split: sum.splits if_splits)
  have "padded_viewport screen_width screen_height hp vp = Inr v
    \<and> int_truediv (surf_width img) (surf_height img) = Inr aspect_ratio
    \<and> float_truediv (available_width v) (available_height v) = Inr ratio
    \<and> (if float_gt ratio aspect_ratio
       then new_height layout = Float_num (available_height v)
          \<and> (\<exists>w. int_of_float (float_mul (available_height v) aspect_ratio) = Inr w
                \<and> new_width layout = Int_num w)
       else new_width layout = Float_num (available_width v)
          \<and> (\<exists>q h. float_truediv (available_width v) aspect_ratio = Inr q
                \<and> int_of_float q = Inr h
                \<and> new_height layout = Int_num h))
    \<and> size_component (new_width layout) = Inr (image_width layout)
    \<and> size_component (new_height layout) = Inr (image_height layout)
    \<and> 0 \<le> image_width layout \<and> 0 \<le> image_height layout
    \<and> image_x layout = (screen_width - image_width layout) div 2
    \<and> image_y layout = (screen_height - image_height layout) div 2"
    using v ar ratio branch sz
    by (cases "float_gt ratio aspect_ratio") (simp_all add: layout)
  then show ?thesis by blast
qed

text \<open>
  The theorem at an image 2 wide and 3 high on a 100 by 100 screen with paddings
  0.1.
\<close>

theorem image_fit_and_centering_witness:
  "draw_centered_image_with_padding \<lparr>surf_width = 2, surf_height = 3\<rparr> 100 100
       one_tenth one_tenth =
     Inr \<lparr>new_width = Int_num 53, new_height = Float_num (Fin 80),
          image_width = 53, image_height = 80, image_x = 23, image_y = 10\<rparr>
   \<and> size_component (Float_num (Fin 80)) = Inr 80
   \<and> (23::int) = (100 - 53) div 2"
  using image_fit_and_centering [OF draw_image_2_3] draw_image_2_3 by auto

text \<open>
  C2 as stated fails at that input. The aspect ratio is the float nearest to two
  thirds and the available space is 80 by 80, so the image is fit to height; the
  product of \<^verbatim>\<open>new_height\<close> and the aspect ratio is the float 53.33333333333333, while
  \<^verbatim>\<open>new_width\<close> is 53; and \<open>x\<close> is 23, while the viewport width less \<^verbatim>\<open>new_width\<close> is 47,
  which is not twice 23.
\<close>

theorem image_width_truncated_and_position_floored:
  "draw_centered_image_with_padding \<lparr>surf_width = 2, surf_height = 3\<rparr> 100 100
       one_tenth one_tenth =
     Inr \<lparr>new_width = Int_num 53, new_height = Float_num (Fin 80),
          image_width = 53, image_height = 80, image_x = 23, image_y = 10\<rparr>
   \<and> int_truediv 2 3 = Inr (Fin (6004799503160661 / 9007199254740992))
   \<and> float_mul (Fin 80) (Fin (6004799503160661 / 9007199254740992)) =
       Fin (3752999689475413 / 70368744177664)
   \<and> Fin 53 \<noteq> Fin (3752999689475413 / 70368744177664)
   \<and> (100::int) - 53 \<noteq> 2 * 23"
  by (simp add: draw_image_2_3 int_truediv_2_3 round_double_80_two_thirds)

subsection \<open>Properties of the rounding\<close>

lemma round_half_even_of_int: "round_half_even (of_int n) = n"
  by (simp add: round_half_even_def)

lemma round_half_even_lower: "y - 1 / 2 \<le> of_int (round_half_even y)"
proof -
  have "y - of_int \<lfloor>y\<rfloor> < 1" by linarith
  then show ?thesis
    by (auto simp: round_half_even_def; linarith)
qed

lemma round_half_even_upper: "of_int (round_half_even y) \<le> y + 1 / 2"
proof -
  have "of_int \<lfloor>y\<rfloor> \<le> y" by simp
  then show ?thesis
    by (auto simp: round_half_even_def; linarith)
qed

lemma round_half_even_mono:
  assumes "x \<le> y"
  shows "round_half_even x \<le> round_half_even y"
proof (rule ccontr)
  assume "\<not> round_half_even x \<le> round_half_even y"
  then have gt: "round_half_even y + 1 \<le> round_half_even x" by simp
  have fx: "of_int \<lfloor>x\<rfloor> \<le> x" "x < of_int \<lfloor>x\<rfloor> + 1" by linarith+
  have fy: "of_int \<lfloor>y\<rfloor> \<le> y" "y < of_int \<lfloor>y\<rfloor> + 1" by linarith+
  have fl: "\<lfloor>x\<rfloor> \<le> \<lfloor>y\<rfloor>" using assms by (rule floor_mono)
  have rx: "round_half_even x = \<lfloor>x\<rfloor> \<or> round_half_even x = \<lfloor>x\<rfloor> + 1"
    by (simp add: round_half_even_def)
  have ry: "round_half_even y = \<lfloor>y\<rfloor> \<or> round_half_even y = \<lfloor>y\<rfloor> + 1"
    by (simp add: round_half_even_def)
  from gt rx ry fl have eqs: "\<lfloor>x\<rfloor> = \<lfloor>y\<rfloor>" "round_half_even x = \<lfloor>x\<rfloor> + 1"
    "round_half_even y = \<lfloor>y\<rfloor>" by linarith+
  from eqs(2) have dx: "1 / 2 \<le> x - of_int \<lfloor>x\<rfloor>"
    by (auto simp: round_half_even_def split: if_splits)
  from eqs(3) have dy: "y - of_int \<lfloor>y\<rfloor> \<le> 1 / 2"
    by (auto simp: round_half_even_def split: if_splits)
  from dx dy assms eqs(1) have "x = y" by simp
  with gt show False by simp
qed


lemma quantum_pos: "0 < quantum a"
  by (simp add: quantum_def)

lemma round_magnitude_error: "\<bar>round_magnitude a - a\<bar> \<le> quantum a / 2"
proof -
  define q where "q = quantum a"
  have q: "0 < q" by (simp add: q_def quantum_pos)
  define m where "m = rat_of_int (round_half_even (a / q))"
  have "a / q - 1 / 2 \<le> m" "m \<le> a / q + 1 / 2"
    unfolding m_def by (rule round_half_even_lower, rule round_half_even_upper)
  then have "(a / q - 1 / 2) * q \<le> m * q" "m * q \<le> (a / q + 1 / 2) * q"
    using q by (simp_all only: mult_le_cancel_right_pos)
  then have "a - q / 2 \<le> m * q" "m * q \<le> a + q / 2"
    using q by (simp_all add: algebra_simps)
  then have "\<bar>m * q - a\<bar> \<le> q / 2" by linarith
  then show ?thesis
    by (simp only: round_magnitude_def q_def [symmetric] m_def [symmetric])
qed

lemma round_magnitude_nonneg: "0 \<le> a \<Longrightarrow> 0 \<le> round_magnitude a"
proof -
  assume "0 \<le> a"
  then have "0 \<le> a / quantum a" using quantum_pos [of a] by simp
  then have "round_half_even 0 \<le> round_half_even (a / quantum a)"
    by (rule round_half_even_mono)
  then have "0 \<le> round_half_even (a / quantum a)"
    using round_half_even_of_int [of 0] by simp
  then show ?thesis using quantum_pos [of a] by (simp add: round_magnitude_def)
qed

text \<open>The normal range: from \<open>2 powi - 1022\<close> upward the spacing is relative.\<close>

lemma binary_exponent_normal:
  assumes "2 powi (- 1022) \<le> a"
  shows "- 1022 \<le> binary_exponent a"
proof -
  have "(0::rat) < 2 powi (- 1022)" by simp
  with assms have pos: "0 < a" by linarith
  have "2 powi (- 1022) < (2::rat) powi (binary_exponent a + 1)"
    using assms binary_exponent_upper [OF pos] by (rule le_less_trans)
  then have "- 1022 < binary_exponent a + 1" by (simp only: pow2_less_iff)
  then show ?thesis by simp
qed

lemma quantum_normal:
  assumes "2 powi (- 1022) \<le> a"
  shows "quantum a = 2 powi (binary_exponent a - 52)"
proof -
  have "max (binary_exponent a - 52) (- 1074) = binary_exponent a - 52"
    using binary_exponent_normal [OF assms] by linarith
  then show ?thesis by (simp only: quantum_def)
qed

lemma pow2_diff: "(2::rat) powi (e - k) = 2 powi e / 2 powi k"
  by (simp add: power_int_diff)

lemma quantum_le:
  assumes "2 powi (- 1022) \<le> a"
  shows "quantum a \<le> a / 2 ^ 52"
proof -
  have "(0::rat) < 2 powi (- 1022)" by simp
  with assms have pos: "0 < a" by linarith
  have "quantum a = 2 powi (binary_exponent a) / 2 ^ 52"
    using quantum_normal [OF assms] pow2_diff [of "binary_exponent a" 52] by simp
  also have "\<dots> \<le> a / 2 ^ 52"
    using binary_exponent_lower [OF pos] by (simp add: divide_right_mono)
  finally show ?thesis .
qed

lemma round_magnitude_relative:
  assumes "2 powi (- 1022) \<le> a"
  shows "\<bar>round_magnitude a - a\<bar> \<le> a / 2 ^ 53"
proof -
  have "\<bar>round_magnitude a - a\<bar> \<le> quantum a / 2" by (rule round_magnitude_error)
  also have "\<dots> \<le> (a / 2 ^ 52) / 2" using quantum_le [OF assms] by simp
  also have "\<dots> = a / 2 ^ 53" by simp
  finally show ?thesis .
qed

text \<open>A rounded magnitude stays within the binade of its argument, ends included.\<close>

lemma round_magnitude_binade:
  assumes "2 powi (- 1022) \<le> a"
  shows "2 powi (binary_exponent a) \<le> round_magnitude a"
    and "round_magnitude a \<le> 2 powi (binary_exponent a + 1)"
proof -
  have "(0::rat) < 2 powi (- 1022)" by simp
  with assms have pos: "0 < a" by linarith
  define e where "e = binary_exponent a"
  define q where "q = (2::rat) powi (e - 52)"
  have q: "0 < q" by (simp add: q_def)
  have qa: "quantum a = q" using quantum_normal [OF assms] by (simp add: q_def e_def)
  have lo: "2 powi e \<le> a" and hi: "a < 2 powi (e + 1)"
    using binary_exponent_lower [OF pos] binary_exponent_upper [OF pos] by (simp_all add: e_def)
  have elo: "(2::rat) powi e / q = of_int (2 ^ 52)"
    by (simp add: q_def power_int_diff)
  have ehi: "(2::rat) powi (e + 1) / q = of_int (2 ^ 53)"
    by (simp add: q_def power_int_diff power_int_add)
  have "2 powi e / q \<le> a / q" using lo q by (simp add: divide_right_mono)
  then have "round_half_even (of_int (2 ^ 52)) \<le> round_half_even (a / q)"
    unfolding elo [symmetric] by (rule round_half_even_mono)
  then have "rat_of_int (2 ^ 52) \<le> of_int (round_half_even (a / q))"
    unfolding round_half_even_of_int by (simp only: of_int_le_iff)
  then have "rat_of_int (2 ^ 52) * q \<le> of_int (round_half_even (a / q)) * q"
    using q by (simp only: mult_le_cancel_right_pos)
  moreover have "rat_of_int (2 ^ 52) * q = 2 powi e"
    using elo q by (simp add: field_simps)
  ultimately show "2 powi (binary_exponent a) \<le> round_magnitude a"
    by (simp add: round_magnitude_def qa e_def)
  have "a / q \<le> 2 powi (e + 1) / q" using hi q by (simp add: divide_right_mono)
  then have "round_half_even (a / q) \<le> round_half_even (of_int (2 ^ 53))"
    unfolding ehi [symmetric] by (rule round_half_even_mono)
  then have "rat_of_int (round_half_even (a / q)) \<le> of_int (2 ^ 53)"
    unfolding round_half_even_of_int by (simp only: of_int_le_iff)
  then have "of_int (round_half_even (a / q)) * q \<le> rat_of_int (2 ^ 53) * q"
    using q by (simp only: mult_le_cancel_right_pos)
  moreover have "rat_of_int (2 ^ 53) * q = 2 powi (e + 1)"
    using ehi q by (simp add: field_simps)
  ultimately show "round_magnitude a \<le> 2 powi (binary_exponent a + 1)"
    by (simp add: round_magnitude_def qa e_def)
qed

lemma binary_exponent_mono:
  assumes "0 < x" and "x \<le> y"
  shows "binary_exponent x \<le> binary_exponent y"
proof -
  from assms have y: "0 < y" by simp
  have "2 powi (binary_exponent x) \<le> x" by (rule binary_exponent_lower [OF assms(1)])
  also note assms(2)
  also have "y < 2 powi (binary_exponent y + 1)" by (rule binary_exponent_upper [OF y])
  finally have "binary_exponent x < binary_exponent y + 1" by (simp only: pow2_less_iff)
  then show ?thesis by simp
qed

lemma round_magnitude_mono:
  assumes "2 powi (- 1022) \<le> x" and "x \<le> y"
  shows "round_magnitude x \<le> round_magnitude y"
proof -
  have "(0::rat) < 2 powi (- 1022)" by simp
  with assms have pos: "0 < x" by linarith
  from assms have ny: "2 powi (- 1022) \<le> y" by simp
  have le: "binary_exponent x \<le> binary_exponent y"
    by (rule binary_exponent_mono [OF pos assms(2)])
  show ?thesis
  proof (cases "binary_exponent x = binary_exponent y")
    case True
    then have q: "quantum x = quantum y" by (simp add: quantum_def)
    have "x / quantum y \<le> y / quantum y"
      using assms(2) quantum_pos [of y] by (simp add: divide_right_mono)
    then have "round_half_even (x / quantum y) \<le> round_half_even (y / quantum y)"
      by (rule round_half_even_mono)
    then have "rat_of_int (round_half_even (x / quantum y)) * quantum y
        \<le> of_int (round_half_even (y / quantum y)) * quantum y"
      using quantum_pos [of y] by (simp only: mult_le_cancel_right_pos of_int_le_iff)
    then show ?thesis by (simp add: round_magnitude_def q)
  next
    case False
    with le have "binary_exponent x + 1 \<le> binary_exponent y" by simp
    then have "(2::rat) powi (binary_exponent x + 1) \<le> 2 powi (binary_exponent y)"
      by (simp only: pow2_le_iff)
    with round_magnitude_binade(2) [OF assms(1)] round_magnitude_binade(1) [OF ny]
    show ?thesis by linarith
  qed
qed

text \<open>
  A number \<open>n * 2 powi k\<close> with \<open>0 < n < 2 ^ 53\<close> in the normal range is a binary64
  number: it is the rounding of itself and of everything from it up to a relative
  \<open>2 powi - 54\<close> above it.
\<close>

lemma round_magnitude_near:
  assumes a: "a = of_int n * 2 powi k" and n: "0 < n" "n < 2 ^ 53"
    and normal: "2 powi (- 1022) \<le> a"
    and x: "a \<le> x" "x \<le> a + a / 2 ^ 54"
  shows "round_magnitude x = a"
proof -
  have "(0::rat) < 2 powi (- 1022)" by simp
  with normal have pos: "0 < a" by linarith
  define e where "e = binary_exponent a"
  define q where "q = (2::rat) powi (e - 52)"
  have q: "0 < q" by (simp add: q_def)
  have lo: "2 powi e \<le> a" and hi: "a < 2 powi (e + 1)"
    using binary_exponent_lower [OF pos] binary_exponent_upper [OF pos] by (simp_all add: e_def)
  have "a < 2 ^ 53 * 2 powi k"
  proof -
    have "rat_of_int n < 2 ^ 53" using n(2) by (metis of_int_less_iff of_int_numeral of_int_power)
    then show ?thesis unfolding a by (simp only: mult_less_cancel_right_pos zero_less_power_int zero_less_numeral)
  qed
  also have "(2::rat) ^ 53 * 2 powi k = 2 powi (53 + k)"
    by (simp add: power_int_add)
  finally have "2 powi e < (2::rat) powi (53 + k)" using lo by linarith
  then have "e < 53 + k" by (simp only: pow2_less_iff)
  then have d: "0 \<le> k - e + 52" by linarith
  define M where "M = n * 2 ^ nat (k - e + 52)"
  have "k - e + 52 = k - (e - 52)" by simp
  then have "(2::rat) powi k / q = 2 powi (k - e + 52)"
    by (simp only: q_def pow2_diff)
  also have "\<dots> = 2 ^ nat (k - e + 52)" using d by (simp add: power_int_def)
  finally have kq: "(2::rat) powi k / q = 2 ^ nat (k - e + 52)" .
  have "a / q = of_int n * (2 powi k / q)" unfolding a by simp
  also have "\<dots> = of_int n * 2 ^ nat (k - e + 52)" by (simp only: kq)
  also have "\<dots> = of_int M" by (simp add: M_def)
  finally have aq: "a / q = of_int M" .
  then have aM: "a = of_int M * q" using q by (simp add: field_simps)
  have "a / q < 2 powi (e + 1) / q" using hi q by (simp add: divide_strict_right_mono)
  also have "(2::rat) powi (e + 1) / q = 2 ^ 53"
    by (simp add: q_def power_int_diff power_int_add)
  finally have "rat_of_int M < 2 ^ 53" unfolding aq .
  then have "M < 2 ^ 53" by (metis of_int_less_iff of_int_numeral of_int_power)
  then have "M + 1 \<le> 2 ^ 53" by simp
  then have "rat_of_int (M + 1) \<le> 2 ^ 53" by (metis of_int_le_iff of_int_numeral of_int_power)
  then have M53: "rat_of_int M + 1 \<le> 2 ^ 53" by simp
  have q53: "2 ^ 53 * q = 2 powi (e + 1)"
    by (simp add: q_def power_int_diff power_int_add)
  have half: "a / 2 ^ 54 < q / 2"
  proof -
    have "a / 2 ^ 54 < 2 powi (e + 1) / 2 ^ 54" using hi by (simp add: divide_strict_right_mono)
    also have "\<dots> = q / 2" by (simp add: q_def power_int_diff power_int_add)
    finally show ?thesis .
  qed
  have xq: "x < of_int M * q + q / 2" using x(2) half aM by linarith
  have "(rat_of_int M + 1) * q \<le> 2 ^ 53 * q" using M53 q by (simp only: mult_le_cancel_right_pos)
  then have "of_int M * q + q \<le> 2 powi (e + 1)" unfolding q53 by (simp add: algebra_simps)
  with xq q have xhi: "x < 2 powi (e + 1)" by linarith
  have xlo: "2 powi e \<le> x" using lo x(1) by linarith
  have ex: "binary_exponent x = e" by (rule binary_exponent_eqI [OF xlo xhi])
  have nx: "2 powi (- 1022) \<le> x" using normal x(1) by linarith
  have qx: "quantum x = q" using quantum_normal [OF nx] by (simp add: ex q_def)
  have y1: "of_int M \<le> x / q" using x(1) aM q by (simp add: field_simps)
  have y2: "x / q < of_int M + 1 / 2" using xq q by (simp add: field_simps)
  have fl: "\<lfloor>x / q\<rfloor> = M" using y1 y2 by (intro floor_unique) linarith+
  have "x / q - of_int \<lfloor>x / q\<rfloor> < 1 / 2" unfolding fl using y2 by linarith
  then have "round_half_even (x / q) = M"
    unfolding round_half_even_def fl by (simp only: if_True)
  then show ?thesis by (simp add: round_magnitude_def qx aM)
qed

lemma round_magnitude_exact:
  assumes "a = of_int n * 2 powi k" and "0 < n" and "n < 2 ^ 53"
    and "2 powi (- 1022) \<le> a"
  shows "round_magnitude a = a"
proof -
  have "(0::rat) < 2 powi (- 1022)" by simp
  with assms(4) have "0 < a" by linarith
  then have "a \<le> a + a / 2 ^ 54" by simp
  with assms show ?thesis by (intro round_magnitude_near [where n = n and k = k]) simp_all
qed

lemma round_magnitude_idem:
  assumes "2 powi (- 1022) \<le> x"
  shows "round_magnitude (round_magnitude x) = round_magnitude x"
proof -
  have "(0::rat) < 2 powi (- 1022)" by simp
  with assms have pos: "0 < x" by linarith
  define e where "e = binary_exponent x"
  define q where "q = (2::rat) powi (e - 52)"
  define m where "m = round_half_even (x / q)"
  have q: "0 < q" by (simp add: q_def)
  have e: "- 1022 \<le> e" unfolding e_def by (rule binary_exponent_normal [OF assms])
  have qx: "quantum x = q" using quantum_normal [OF assms] by (simp add: e_def q_def)
  have r: "round_magnitude x = of_int m * q" by (simp add: round_magnitude_def qx m_def)
  have b: "2 powi e \<le> of_int m * q" "of_int m * q \<le> 2 powi (e + 1)"
    using round_magnitude_binade [OF assms] by (simp_all add: r e_def)
  have "(2::rat) powi (- 1022) \<le> 2 powi e" using e by (simp only: pow2_le_iff)
  with b(1) have normal: "2 powi (- 1022) \<le> of_int m * q" by linarith
  have q53: "2 ^ 53 * q = 2 powi (e + 1)"
    by (simp add: q_def power_int_diff power_int_add)
  have "0 < rat_of_int m * q" using b(1) zero_less_power_int [of "2::rat" e] by linarith
  then have mpos: "0 < m" using q by (simp add: zero_less_mult_iff)
  have "rat_of_int m * q \<le> 2 ^ 53 * q" using b(2) q53 by simp
  then have "rat_of_int m \<le> 2 ^ 53" using q by (simp only: mult_le_cancel_right_pos)
  then have m53: "m \<le> 2 ^ 53" by (metis of_int_le_iff of_int_numeral of_int_power)
  show ?thesis
  proof (cases "m = 2 ^ 53")
    case True
    then have "rat_of_int m * q = of_int 1 * 2 powi (e + 1)" using q53 by simp
    then show ?thesis
      unfolding r using normal
      by (intro round_magnitude_exact [where n = 1 and k = "e + 1"]) simp_all
  next
    case False
    with m53 have "m < 2 ^ 53" by simp
    then show ?thesis
      unfolding r using normal mpos
      by (intro round_magnitude_exact [where n = m and k = "e - 52"]) (simp_all add: q_def)
  qed
qed

lemma tiny_le_sixteenth: "2 powi (- 1022) \<le> (1 / 16 :: rat)"
proof -
  have "(- 1022 :: int) \<le> - 4" by simp
  then have "(2::rat) powi (- 1022) \<le> 2 powi (- 4)" by (simp only: pow2_le_iff)
  also have "(2::rat) powi (- 4) = 1 / 16" by simp
  finally show ?thesis .
qed

lemma below_overflow: "x \<le> 2 ^ 65 \<Longrightarrow> x < (2::rat) ^ 1024"
proof -
  assume "x \<le> 2 ^ 65"
  moreover have "(2::rat) ^ 65 < 2 ^ 1024" by (rule power_strict_increasing) simp_all
  ultimately show ?thesis by (rule le_less_trans)
qed

text \<open>
  Rounding in the range the image fitting works in: the result is finite, within a
  relative \<open>2 powi - 53\<close> of the argument, and is itself a binary64 number.
\<close>

lemma round_double_normal:
  assumes "2 powi (- 1022) \<le> x" and "x \<le> 2 ^ 64"
  shows "round_double x = Fin (round_magnitude x)"
    and "\<bar>round_magnitude x - x\<bar> \<le> x / 2 ^ 53"
    and "round_double (round_magnitude x) = Fin (round_magnitude x)"
    and "2 powi (- 1022) \<le> round_magnitude x"
proof -
  have "(0::rat) < 2 powi (- 1022)" by simp
  with assms(1) have pos: "0 < x" by linarith
  show err: "\<bar>round_magnitude x - x\<bar> \<le> x / 2 ^ 53"
    by (rule round_magnitude_relative [OF assms(1)])
  have "x / 2 ^ 53 \<le> x" using pos by (simp add: field_simps)
  with err have "round_magnitude x \<le> x + x" by linarith
  also have "\<dots> \<le> 2 ^ 65" using assms(2) by simp
  finally have "round_magnitude x \<le> 2 ^ 65" .
  then have fin: "round_magnitude x < 2 ^ 1024" by (rule below_overflow)
  with pos show "round_double x = Fin (round_magnitude x)"
    by (simp add: round_double_def)
  have "(2::rat) powi (- 1022) \<le> 2 powi (binary_exponent x)"
    using binary_exponent_normal [OF assms(1)] by (simp only: pow2_le_iff)
  with round_magnitude_binade(1) [OF assms(1)]
  show normal: "2 powi (- 1022) \<le> round_magnitude x" by linarith
  with \<open>(0::rat) < 2 powi (- 1022)\<close> have rpos: "0 < round_magnitude x" by linarith
  have "round_magnitude (round_magnitude x) = round_magnitude x"
    by (rule round_magnitude_idem [OF assms(1)])
  with rpos fin show "round_double (round_magnitude x) = Fin (round_magnitude x)"
    by (simp add: round_double_def)
qed

lemma round_double_exact:
  assumes "a = of_int n * 2 powi k" and "0 < n" and "n < 2 ^ 53"
    and "2 powi (- 1022) \<le> a" and "a \<le> 2 ^ 64"
  shows "round_double a = Fin a"
  using round_double_normal(1) [OF assms(4,5)] round_magnitude_exact [OF assms(1-4)] by simp

lemma round_double_near:
  assumes "a = of_int n * 2 powi k" and "0 < n" and "n < 2 ^ 53"
    and "2 powi (- 1022) \<le> a" and "a \<le> x" and "x \<le> a + a / 2 ^ 54" and "x \<le> 2 ^ 64"
  shows "round_double x = Fin a"
proof -
  from assms(4,5) have "2 powi (- 1022) \<le> x" by linarith
  from round_double_normal(1) [OF this assms(7)] round_magnitude_near [OF assms(1-6)]
  show ?thesis by simp
qed

lemma round_double_of_int:
  assumes "0 \<le> i" and "i < 2 ^ 53"
  shows "round_double (of_int i) = Fin (of_int i)"
proof (cases "i = 0")
  case True
  then show ?thesis by (simp add: round_double_def)
next
  case False
  with assms(1) have pos: "0 < i" by simp
  then have one: "1 \<le> rat_of_int i" by simp
  have n: "2 powi (- 1022) \<le> rat_of_int i" using tiny_le_sixteenth one by linarith
  have "rat_of_int i < 2 ^ 53" using assms(2) by (metis of_int_less_iff of_int_numeral of_int_power)
  then have u: "rat_of_int i \<le> 2 ^ 64" by simp
  show ?thesis
    by (rule round_double_exact [where n = i and k = 0]) (use pos assms(2) n u in simp_all)
qed

lemma float_of_int_exact:
  assumes "0 \<le> i" and "i < 2 ^ 53"
  shows "float_of_int i = Inr (Fin (of_int i))"
  using round_double_of_int [OF assms] by (simp add: float_of_int_def)

lemma round_double_mono:
  assumes "2 powi (- 1022) \<le> x" and "x \<le> y" and "y \<le> 2 ^ 64"
  shows "round_magnitude x \<le> round_magnitude y"
  by (rule round_magnitude_mono [OF assms(1,2)])

subsection \<open>The available space with padding 0.1\<close>

text \<open>
  For a screen size \<open>s\<close> from 1 up to \<open>2 ^ 31\<close>, the available size
  \<^verbatim>\<open>s - 2 * (s * 0.1)\<close> is a binary64 number near four fifths of \<open>s\<close>, and it is not
  just below an integer: it is an integer when 5 divides \<open>s\<close>, and at least a tenth
  away from every integer otherwise.
\<close>

lemma available_one_tenth:
  fixes s :: int
  assumes s: "0 < s" "s < 2 ^ 31"
  obtains p a where
    "float_mul (Fin (of_int s)) one_tenth = Fin p"
    "float_sub (Fin (of_int s)) (float_mul (Fin 2) (Fin p)) = Fin a"
    "round_double a = Fin a"
    "of_int s * 7 / 10 \<le> a" "a \<le> of_int s * 9 / 10"
    "\<And>N::int. a < of_int N \<Longrightarrow> 1 / 2 ^ 20 \<le> of_int N - a"
proof -
  define S where "S = rat_of_int s"
  define c :: rat where "c = 3602879701896397 / 36028797018963968"
  define X1 where "X1 = S * c"
  define p where "p = round_magnitude X1"
  define p2 where "p2 = round_magnitude (2 * p)"
  define a where "a = round_magnitude (S - p2)"
  have p53: "(2::rat) ^ 53 = 9007199254740992" by simp
  have p64: "(2::rat) ^ 64 = 18446744073709551616" by simp
  have S1: "1 \<le> S" using s(1) by (simp add: S_def)
  have "rat_of_int s < 2 ^ 31" using s(2) by (metis of_int_less_iff of_int_numeral of_int_power)
  then have S31: "S < 2147483648" by (simp add: S_def)
  have tiny: "2 powi (- 1022) \<le> (1 / 16 :: rat)" by (rule tiny_le_sixteenth)
  \<comment> \<open>the first product\<close>
  have X1: "X1 = S / 10 + S / 180143985094819840" by (simp add: X1_def c_def)
  have x1n: "2 powi (- 1022) \<le> X1" using tiny S1 X1 by linarith
  have x1u: "X1 \<le> 2 ^ 64" unfolding p64 using S31 S1 X1 by linarith
  note r1 = round_double_normal [OF x1n x1u]
  have e1: "\<bar>p - X1\<bar> \<le> X1 / 9007199254740992"
    using r1(2) unfolding p_def p53 .
  \<comment> \<open>the doubling\<close>
  have pn: "2 powi (- 1022) \<le> p" using r1(4) unfolding p_def .
  have "(0::rat) < 2 powi (- 1022)" by simp
  with pn have ppos: "0 < p" by linarith
  have x2n: "2 powi (- 1022) \<le> 2 * p" using pn ppos by linarith
  have pu: "p \<le> S" using e1 S1 X1 by linarith
  have x2u: "2 * p \<le> 2 ^ 64" unfolding p64 using pu S31 by linarith
  note r2 = round_double_normal [OF x2n x2u]
  have e2: "\<bar>p2 - 2 * p\<bar> \<le> 2 * p / 9007199254740992"
    using r2(2) unfolding p2_def p53 .
  \<comment> \<open>the difference\<close>
  have p2u: "p2 \<le> S * 3 / 10" using e1 e2 S1 X1 by linarith
  have p2l: "S / 10 \<le> p2" using e1 e2 S1 X1 by linarith
  have x3n: "2 powi (- 1022) \<le> S - p2" using tiny p2u S1 by linarith
  have x3u: "S - p2 \<le> 2 ^ 64" unfolding p64 using p2l S31 S1 by linarith
  note r3 = round_double_normal [OF x3n x3u]
  have e3: "\<bar>a - (S - p2)\<bar> \<le> (S - p2) / 9007199254740992"
    using r3(2) unfolding a_def p53 .
  have mul: "float_mul (Fin (of_int s)) one_tenth = Fin p"
    unfolding one_tenth_def float_mul.simps using r1(1)
    by (simp only: p_def S_def c_def X1_def)
  have dbl: "float_mul (Fin 2) (Fin p) = Fin p2"
    unfolding float_mul.simps using r2(1) by (simp only: p2_def)
  have "float_sub (Fin S) (Fin p2) = round_double (S - p2)"
    by (simp add: float_sub_def)
  then have sub: "float_sub (Fin (of_int s)) (float_mul (Fin 2) (Fin p)) = Fin a"
    using r3(1) by (simp only: dbl a_def S_def)
  have dbl_a: "round_double a = Fin a" using r3(3) by (simp only: a_def)
  note b1 = abs_le_D1 [OF e1] abs_le_D2 [OF e1]
  note b2 = abs_le_D1 [OF e2] abs_le_D2 [OF e2]
  note b3 = abs_le_D1 [OF e3, unfolded diff_divide_distrib]
    abs_le_D2 [OF e3, unfolded diff_divide_distrib]
  have close: "\<bar>a - S * 4 / 5\<bar> \<le> S / 4503599627370496"
  proof (rule abs_leI)
    show "a - S * 4 / 5 \<le> S / 4503599627370496" using b1 b2 b3 S1 X1 by linarith
    show "- (a - S * 4 / 5) \<le> S / 4503599627370496" using b1 b2 b3 S1 X1 by linarith
  qed
  have lo: "of_int s * 7 / 10 \<le> a" using close S1 unfolding S_def by linarith
  have hi: "a \<le> of_int s * 9 / 10" using close S1 unfolding S_def by linarith
  have gap: "1 / 2 ^ 20 \<le> of_int N - a" if N: "a < of_int N" for N :: int
  proof (cases "s mod 5 = 0")
    case False
    then have "5 * N - 4 * s \<noteq> 0" by presburger
    then consider "1 \<le> 5 * N - 4 * s" | "5 * N - 4 * s \<le> - 1" by linarith
    then have "1 / 1048576 \<le> rat_of_int N - a"
    proof cases
      case 1
      then have "rat_of_int 1 \<le> rat_of_int (5 * N - 4 * s)" by (simp only: of_int_le_iff)
      then have "1 \<le> 5 * rat_of_int N - 4 * S" by (simp add: S_def)
      with abs_le_D1 [OF close] S31 S1 show ?thesis by linarith
    next
      case 2
      then have "rat_of_int (5 * N - 4 * s) \<le> rat_of_int (- 1)" by (simp only: of_int_le_iff)
      then have "5 * rat_of_int N - 4 * S \<le> - 1" by (simp add: S_def)
      with abs_le_D2 [OF close] S31 S1 N show ?thesis by linarith
    qed
    then show ?thesis by simp
  next
    case True
    then obtain k where k: "s = 5 * k" by (metis mod_eq_0_iff_dvd dvd_def)
    with s have kpos: "0 < k" and k31: "k < 2 ^ 31" by simp_all
    define K where "K = rat_of_int k"
    have K1: "1 \<le> K" using kpos by (simp add: K_def)
    have "rat_of_int k < 2 ^ 31" using k31 by (metis of_int_less_iff of_int_numeral of_int_power)
    then have K31: "K < 2147483648" by (simp add: K_def)
    have SK: "S = 5 * K" by (simp add: S_def K_def k)
    have half: "K / 2 = of_int k * 2 powi (- 1)" by (simp add: K_def)
    have "round_magnitude X1 = K / 2"
    proof (rule round_magnitude_near [where n = k and k = "- 1"])
      show "K / 2 = of_int k * 2 powi (- 1)" by (rule half)
      show "0 < k" by (rule kpos)
      show "k < 2 ^ 53" using k31 by simp
      show "2 powi (- 1022) \<le> K / 2" using tiny K1 by linarith
      show "K / 2 \<le> X1" using K1 X1 SK by linarith
      have "(2::rat) ^ 54 = 18014398509481984" by simp
      then show "X1 \<le> K / 2 + K / 2 / 2 ^ 54" using K1 X1 SK by simp
    qed
    then have pK: "p = K / 2" by (simp only: p_def)
    have "round_magnitude (of_int k) = of_int k"
    proof (rule round_magnitude_exact [where n = k and k = 0])
      show "rat_of_int k = of_int k * 2 powi 0" by simp
      show "0 < k" by (rule kpos)
      show "k < 2 ^ 53" using k31 by simp
      show "2 powi (- 1022) \<le> rat_of_int k" using tiny K1 unfolding K_def by linarith
    qed
    then have p2K: "p2 = K" by (simp add: p2_def pK K_def)
    have "round_magnitude (of_int (4 * k)) = of_int (4 * k)"
    proof (rule round_magnitude_exact [where n = "4 * k" and k = 0])
      show "rat_of_int (4 * k) = of_int (4 * k) * 2 powi 0" by simp
      show "0 < 4 * k" using kpos by simp
      show "4 * k < 2 ^ 53" using k31 by simp
      show "2 powi (- 1022) \<le> rat_of_int (4 * k)"
        using tiny K1 unfolding K_def by (simp; linarith?)
    qed
    then have aK: "a = of_int (4 * k)" by (simp add: a_def p2K SK K_def)
    from N have "4 * k < N" unfolding aK by (simp only: of_int_less_iff)
    then have "1 \<le> N - 4 * k" by simp
    then have "rat_of_int 1 \<le> rat_of_int (N - 4 * k)" by (simp only: of_int_le_iff)
    then have "1 \<le> rat_of_int N - a" unfolding aK by simp
    then show ?thesis by simp
  qed
  from that [OF mul sub dbl_a lo hi gap] show ?thesis .
qed

lemma axis_one_tenth:
  fixes s :: int
  assumes s: "0 \<le> s" "s < 2 ^ 31"
  obtains p a where
    "int_mul_float s one_tenth = Inr (Fin p)"
    "int_sub_float s (float_mul (Fin 2) (Fin p)) = Inr (Fin a)"
    "round_double a = Fin a"
    "of_int s * 7 / 10 \<le> a" "a \<le> of_int s * 9 / 10"
    "\<And>N::int. a < of_int N \<Longrightarrow> 1 / 2 ^ 20 \<le> of_int N - a"
proof -
  have conv: "float_of_int s = Inr (Fin (of_int s))"
    by (rule float_of_int_exact) (use s in simp_all)
  show ?thesis
  proof (cases "s = 0")
    case True
    have z: "round_double 0 = Fin 0" by (simp add: round_double_def)
    have conv0: "float_of_int 0 = Inr (Fin 0)" using conv True by simp
    have m: "int_mul_float s one_tenth = Inr (Fin 0)"
      by (simp add: int_mul_float_def conv0 True one_tenth_def z)
    have d: "int_sub_float s (float_mul (Fin 2) (Fin 0)) = Inr (Fin 0)"
      by (simp add: int_sub_float_def conv0 True float_sub_def z)
    have g: "1 / 2 ^ 20 \<le> rat_of_int N - 0" if "0 < rat_of_int N" for N :: int
    proof -
      from that have "1 \<le> N" by simp
      then have "1 \<le> rat_of_int N" by simp
      then show ?thesis by simp
    qed
    show ?thesis
      by (rule that [OF m d z]) (use True g in simp_all)
  next
    case False
    with s have pos: "0 < s" by simp
    from available_one_tenth [OF pos s(2)] obtain p a where
      pa: "float_mul (Fin (of_int s)) one_tenth = Fin p"
        "float_sub (Fin (of_int s)) (float_mul (Fin 2) (Fin p)) = Fin a"
        "round_double a = Fin a"
        "of_int s * 7 / 10 \<le> a" "a \<le> of_int s * 9 / 10"
        "\<And>N::int. a < of_int N \<Longrightarrow> 1 / 2 ^ 20 \<le> of_int N - a"
      by blast
    have m: "int_mul_float s one_tenth = Inr (Fin p)"
      by (simp only: int_mul_float_def conv pa(1) sum.case)
    have d: "int_sub_float s (float_mul (Fin 2) (Fin p)) = Inr (Fin a)"
      by (simp only: int_sub_float_def conv pa(2) sum.case)
    show ?thesis by (rule that [OF m d pa(3,4,5,6)])
  qed
qed

lemma padded_viewport_one_tenth:
  assumes "0 \<le> screen_width" "screen_width < 2 ^ 31"
    and "0 \<le> screen_height" "screen_height < 2 ^ 31"
  obtains px py aw ah where
    "padded_viewport screen_width screen_height one_tenth one_tenth =
       Inr \<lparr>padding_x = Fin px, padding_y = Fin py,
            available_width = Fin aw, available_height = Fin ah\<rparr>"
    "round_double aw = Fin aw"
    "of_int screen_width * 7 / 10 \<le> aw" "aw \<le> of_int screen_width * 9 / 10"
    "of_int screen_height * 7 / 10 \<le> ah" "ah \<le> of_int screen_height * 9 / 10"
    "\<And>N::int. ah < of_int N \<Longrightarrow> 1 / 2 ^ 20 \<le> of_int N - ah"
proof -
  from axis_one_tenth [OF assms(1,2)] obtain px aw where
    x: "int_mul_float screen_width one_tenth = Inr (Fin px)"
      "int_sub_float screen_width (float_mul (Fin 2) (Fin px)) = Inr (Fin aw)"
      "round_double aw = Fin aw"
      "of_int screen_width * 7 / 10 \<le> aw" "aw \<le> of_int screen_width * 9 / 10"
    by blast
  from axis_one_tenth [OF assms(3,4)] obtain py ah where
    y: "int_mul_float screen_height one_tenth = Inr (Fin py)"
      "int_sub_float screen_height (float_mul (Fin 2) (Fin py)) = Inr (Fin ah)"
      "of_int screen_height * 7 / 10 \<le> ah" "ah \<le> of_int screen_height * 9 / 10"
      "\<And>N::int. ah < of_int N \<Longrightarrow> 1 / 2 ^ 20 \<le> of_int N - ah"
    by blast
  have "padded_viewport screen_width screen_height one_tenth one_tenth =
      Inr \<lparr>padding_x = Fin px, padding_y = Fin py,
           available_width = Fin aw, available_height = Fin ah\<rparr>"
    by (simp only: padded_viewport_def x(1,2) y(1,2) sum.case)
  from that [OF this x(3,4,5) y(3,4,5)] show ?thesis .
qed

subsection \<open>The fitted size against the available space\<close>

lemma tiny_le_64: "2 powi (- 1022) \<le> (1 / 18446744073709551616 :: rat)"
proof -
  have "(- 1022 :: int) \<le> - 64" by simp
  then have "(2::rat) powi (- 1022) \<le> 2 powi (- 64)" by (simp only: pow2_le_iff)
  also have "(2::rat) powi (- 64) = 1 / 18446744073709551616" by simp
  finally show ?thesis .
qed

lemma round_double_fixed:
  assumes "round_double a = Fin a" and "2 powi (- 1022) \<le> a" and "a \<le> 2 ^ 64"
  shows "round_magnitude a = a"
  using round_double_normal(1) [OF assms(2,3)] assms(1) by simp

lemma rat_of_int_size:
  fixes i :: int
  assumes "0 < i" and "i < 2 ^ 31"
  shows "1 \<le> rat_of_int i" and "rat_of_int i < 2147483648"
proof -
  from assms(1) show "1 \<le> rat_of_int i" by simp
  from assms(2) have "i < 2147483648" by simp
  then have "rat_of_int i < rat_of_int 2147483648" by (simp only: of_int_less_iff)
  then show "rat_of_int i < 2147483648" by simp
qed

lemma aspect_ratio_of_image:
  fixes ow oh :: int
  assumes "0 < ow" "ow < 2 ^ 31" "0 < oh" "oh < 2 ^ 31"
  obtains ar where "int_truediv ow oh = Inr (Fin ar)" "round_magnitude ar = ar"
    "1 / 4294967296 \<le> ar" "ar \<le> 4294967296"
    "\<bar>ar - of_int ow / of_int oh\<bar> \<le> of_int ow / of_int oh / 2 ^ 53"
proof -
  define x where "x = rat_of_int ow / rat_of_int oh"
  have p64: "(2::rat) ^ 64 = 18446744073709551616" by simp
  have p53: "(2::rat) ^ 53 = 9007199254740992" by simp
  note W = rat_of_int_size [OF assms(1,2)]
  note H = rat_of_int_size [OF assms(3,4)]
  have xl: "1 / 2147483648 \<le> x" unfolding x_def using W H by (simp add: field_simps; linarith?)
  have xu: "x \<le> 2147483648" unfolding x_def using W H by (simp add: field_simps; linarith?)
  have n: "2 powi (- 1022) \<le> x" using tiny_le_64 xl by linarith
  have u: "x \<le> 2 ^ 64" unfolding p64 using xu by linarith
  note r = round_double_normal [OF n u]
  note e = abs_le_D1 [OF r(2) [unfolded p53]] abs_le_D2 [OF r(2) [unfolded p53]]
  have "round_double (rat_of_int ow / rat_of_int oh) = Fin (round_magnitude x)"
    using r(1) by (simp only: x_def)
  then have 1: "int_truediv ow oh = Inr (Fin (round_magnitude x))"
    using assms(3) by (simp add: int_truediv_def)
  have 2: "round_magnitude (round_magnitude x) = round_magnitude x"
    by (rule round_magnitude_idem [OF n])
  have 3: "1 / 4294967296 \<le> round_magnitude x" using e xl by linarith
  have 4: "round_magnitude x \<le> 4294967296" using e xl xu by linarith
  have 5: "\<bar>round_magnitude x - of_int ow / of_int oh\<bar> \<le> of_int ow / of_int oh / 2 ^ 53"
    using r(2) by (simp only: x_def)
  from that [OF 1 2 3 4 5] show ?thesis .
qed

lemma fit_to_height_bound:
  assumes aw: "round_double aw = Fin aw" "7 / 10 \<le> aw" "aw \<le> 2147483648"
    and ah: "7 / 10 \<le> ah" "ah \<le> 2147483648"
    and ar: "round_magnitude ar = ar" "1 / 4294967296 \<le> ar" "ar \<le> 4294967296"
    and gt: "ar < round_magnitude (aw / ah)"
  shows "round_magnitude (ah * ar) \<le> aw"
proof -
  have p64: "(2::rat) ^ 64 = 18446744073709551616" by simp
  have ahpos: "0 < ah" using ah(1) by linarith
  have le: "ah * ar \<le> aw"
  proof (rule ccontr)
    assume "\<not> ah * ar \<le> aw"
    then have "aw < ar * ah" by (simp add: mult.commute)
    then have x: "aw / ah \<le> ar" using ahpos by (simp add: pos_divide_le_eq)
    have "1 / 4294967296 \<le> aw / ah"
      using aw(2) ah(2) ahpos by (simp add: pos_le_divide_eq; linarith?)
    then have n: "2 powi (- 1022) \<le> aw / ah" using tiny_le_64 by linarith
    have "round_magnitude (aw / ah) \<le> round_magnitude ar"
      by (rule round_magnitude_mono [OF n x])
    with gt ar(1) show False by simp
  qed
  have "0 \<le> ar * (ah - 7 / 10)" using ar(2) ah(1) by (intro mult_nonneg_nonneg) linarith+
  then have "ar * 7 / 10 \<le> ah * ar" by (simp add: algebra_simps)
  then have n: "2 powi (- 1022) \<le> ah * ar" using tiny_le_64 ar(2) by linarith
  have "round_magnitude (ah * ar) \<le> round_magnitude aw"
    by (rule round_magnitude_mono [OF n le])
  moreover have "round_magnitude aw = aw"
  proof (rule round_double_fixed [OF aw(1)])
    show "2 powi (- 1022) \<le> aw" using tiny_le_64 aw(2) by linarith
    show "aw \<le> 2 ^ 64" unfolding p64 using aw(3) by linarith
  qed
  ultimately show ?thesis by simp
qed

lemma fit_to_width_bound:
  assumes aw: "7 / 10 \<le> aw" "aw \<le> 2147483648"
    and ah: "7 / 10 \<le> ah" "ah \<le> 2147483648"
    and gap: "\<And>N::int. ah < of_int N \<Longrightarrow> 1 / 2 ^ 20 \<le> of_int N - ah"
    and ar: "1 / 4294967296 \<le> ar" "ar \<le> 4294967296"
    and le: "round_magnitude (aw / ah) \<le> ar"
  shows "of_int \<lfloor>round_magnitude (aw / ar)\<rfloor> \<le> ah"
proof (rule ccontr)
  define N where "N = \<lfloor>round_magnitude (aw / ar)\<rfloor>"
  define x where "x = aw / ah"
  define y where "y = aw / ar"
  assume "\<not> of_int \<lfloor>round_magnitude (aw / ar)\<rfloor> \<le> ah"
  then have N: "ah < of_int N" by (simp add: N_def)
  have p53: "(2::rat) ^ 53 = 9007199254740992" by simp
  have p20: "(2::rat) ^ 20 = 1048576" by simp
  have ahpos: "0 < ah" using ah(1) by linarith
  have arpos: "0 < ar" using ar(1) by linarith
  have awpos: "0 < aw" using aw(1) by linarith
  have "1 / 4294967296 \<le> x"
    unfolding x_def using aw(1) ah(2) ahpos by (simp add: pos_le_divide_eq; linarith?)
  then have nx: "2 powi (- 1022) \<le> x" using tiny_le_64 by linarith
  note ex = abs_le_D2 [OF round_magnitude_relative [OF nx, unfolded p53]]
  have x1: "x - x / 9007199254740992 \<le> ar" using ex le unfolding x_def by linarith
  have "0 \<le> ah / ar" using ahpos arpos by simp
  then have m: "(x - x / 9007199254740992) * (ah / ar) \<le> ar * (ah / ar)"
    using x1 by (rule mult_right_mono [rotated])
  have m1: "ar * (ah / ar) = ah" using arpos by simp
  have m2: "(x - x / 9007199254740992) * (ah / ar) = y - y / 9007199254740992"
    unfolding x_def y_def using ahpos arpos by (simp add: field_simps)
  have y1: "y - y / 9007199254740992 \<le> ah" using m unfolding m1 m2 .
  have "(7 / 10) / ar \<le> aw / ar" using aw(1) arpos by (intro divide_right_mono) simp_all
  moreover have "(7 / 10) / 4294967296 \<le> (7 / 10) / ar"
    using ar(2) arpos by (intro divide_left_mono) simp_all
  ultimately have "1 / 8589934592 \<le> y" unfolding y_def by linarith
  then have ny: "2 powi (- 1022) \<le> y" using tiny_le_64 by linarith
  note ey = abs_le_D1 [OF round_magnitude_relative [OF ny, unfolded p53]]
  have "of_int N \<le> round_magnitude y" unfolding N_def y_def by simp
  with ey y1 ah(2) have "of_int N - ah < 1 / 1048576" by linarith
  with gap [OF N] show False unfolding p20 by linarith
qed

lemma trunc_toward_zero_floor: "0 \<le> t \<Longrightarrow> trunc_toward_zero t = \<lfloor>t\<rfloor>"
  by (simp add: trunc_toward_zero_def)

lemma floor_within: "rat_of_int \<lfloor>t\<rfloor> \<le> t \<and> t < rat_of_int \<lfloor>t\<rfloor> + 1"
  by linarith

lemma product_of_sizes:
  fixes a b :: rat
  assumes "0 \<le> a" "a \<le> 2147483648" "0 \<le> b" "b \<le> 4294967296"
  shows "a * b \<le> 2 ^ 64"
proof -
  have "a * b \<le> 2147483648 * 4294967296" using assms by (intro mult_mono) simp_all
  also have "\<dots> \<le> (2::rat) ^ 64" by simp
  finally show ?thesis .
qed

lemma fit_image_bounds:
  assumes aw: "round_double aw = Fin aw" "aw = 0 \<or> 7 / 10 \<le> aw" "aw \<le> 2147483648"
    and ah: "7 / 10 \<le> ah" "ah \<le> 2147483648"
    and gap: "\<And>N::int. ah < of_int N \<Longrightarrow> 1 / 2 ^ 20 \<le> of_int N - ah"
    and ar: "int_truediv (surf_width img) (surf_height img) = Inr (Fin ar)"
      "round_magnitude ar = ar" "1 / 4294967296 \<le> ar" "ar \<le> 4294967296"
  shows "(\<exists>i t. fit_image (Fin aw) (Fin ah) img = Inr (Int_num i, Float_num (Fin ah))
            \<and> float_mul (Fin ah) (Fin ar) = Fin t
            \<and> \<bar>t - ah * ar\<bar> \<le> ah * ar / 2 ^ 53
            \<and> of_int i \<le> t \<and> t < of_int i + 1 \<and> of_int i \<le> aw)
       \<or> (\<exists>i t. fit_image (Fin aw) (Fin ah) img = Inr (Float_num (Fin aw), Int_num i)
            \<and> float_truediv (Fin aw) (Fin ar) = Inr (Fin t)
            \<and> \<bar>t - aw / ar\<bar> \<le> aw / ar / 2 ^ 53
            \<and> of_int i \<le> t \<and> t < of_int i + 1 \<and> of_int i \<le> ah)"
proof -
  have ahpos: "0 < ah" using ah(1) by linarith
  have arpos: "0 < ar" using ar(3) by linarith
  have z: "round_double 0 = Fin 0" by (simp add: round_double_def)
  show ?thesis
  proof (cases "aw = 0")
    case True
    have q: "float_truediv (Fin 0) (Fin ah) = Inr (Fin 0)"
      using ahpos by (simp add: float_truediv_def z)
    have d: "float_truediv (Fin 0) (Fin ar) = Inr (Fin 0)"
      using arpos by (simp add: float_truediv_def z)
    have "fit_image (Fin aw) (Fin ah) img = Inr (Float_num (Fin aw), Int_num 0)"
      using arpos by (simp add: fit_image_def ar(1) True q d trunc_toward_zero_def)
    moreover have "float_truediv (Fin aw) (Fin ar) = Inr (Fin 0)" using d True by simp
    moreover have "\<bar>0 - aw / ar\<bar> \<le> aw / ar / 2 ^ 53" using True by simp
    moreover have "rat_of_int 0 \<le> 0 \<and> (0::rat) < rat_of_int 0 + 1 \<and> rat_of_int 0 \<le> ah"
      using ahpos by simp
    ultimately show ?thesis by blast
  next
    case False
    with aw(2) have awl: "7 / 10 \<le> aw" by simp
    then have awpos: "0 < aw" by linarith
    define x where "x = aw / ah"
    have "1 / 4294967296 \<le> x"
      unfolding x_def using awl ah(2) ahpos by (simp add: pos_le_divide_eq; linarith?)
    then have nx: "2 powi (- 1022) \<le> x" using tiny_le_64 by linarith
    have "aw / ah \<le> 2147483648 / (7 / 10)"
      using aw(3) ah(1) awpos by (intro frac_le) simp_all
    also have "2147483648 / (7 / 10) \<le> (2::rat) ^ 64" by simp
    finally have ux: "x \<le> 2 ^ 64" unfolding x_def .
    have q: "float_truediv (Fin aw) (Fin ah) = Inr (Fin (round_magnitude x))"
      using ahpos round_double_normal(1) [OF nx ux] by (simp add: float_truediv_def x_def)
    show ?thesis
    proof (cases "ar < round_magnitude x")
      case True
      define t where "t = round_magnitude (ah * ar)"
      have "0 \<le> ar * (ah - 7 / 10)" using arpos ah(1) by (intro mult_nonneg_nonneg) simp_all
      then have "ar * 7 / 10 \<le> ah * ar" by (simp add: algebra_simps)
      then have np: "2 powi (- 1022) \<le> ah * ar" using tiny_le_64 ar(3) by linarith
      have up: "ah * ar \<le> 2 ^ 64"
        using ahpos ah(2) arpos ar(4) by (intro product_of_sizes) simp_all
      note r = round_double_normal [OF np up]
      have m: "float_mul (Fin ah) (Fin ar) = Fin t" using r(1) by (simp add: t_def)
      have tpos: "0 \<le> t" unfolding t_def using ahpos arpos by (intro round_magnitude_nonneg) simp
      have "t \<le> aw" unfolding t_def
        by (rule fit_to_height_bound [OF aw(1) awl aw(3) ah ar(2,3,4) True [unfolded x_def]])
      then have b: "rat_of_int \<lfloor>t\<rfloor> \<le> aw" using floor_within [of t] by linarith
      have "fit_image (Fin aw) (Fin ah) img = Inr (Int_num \<lfloor>t\<rfloor>, Float_num (Fin ah))"
        using True tpos
        by (simp add: fit_image_def ar(1) q m [simplified] trunc_toward_zero_floor)
      moreover have "\<bar>t - ah * ar\<bar> \<le> ah * ar / 2 ^ 53" using r(2) by (simp only: t_def)
      ultimately show ?thesis using m b floor_within [of t] by blast
    next
      case False
      then have le: "round_magnitude (aw / ah) \<le> ar" by (simp add: x_def)
      define t where "t = round_magnitude (aw / ar)"
      have "(7 / 10) / ar \<le> aw / ar" using awl arpos by (intro divide_right_mono) simp_all
      moreover have "(7 / 10) / 4294967296 \<le> (7 / 10) / ar"
        using ar(4) arpos by (intro divide_left_mono) simp_all
      ultimately have "1 / 8589934592 \<le> aw / ar" by linarith
      then have nq: "2 powi (- 1022) \<le> aw / ar" using tiny_le_64 by linarith
      have "aw / ar \<le> 2147483648 / (1 / 4294967296)"
        using aw(3) ar(3) awpos by (intro frac_le) simp_all
      also have "2147483648 / (1 / 4294967296) \<le> (2::rat) ^ 64" by simp
      finally have uq: "aw / ar \<le> 2 ^ 64" .
      note r = round_double_normal [OF nq uq]
      have d: "float_truediv (Fin aw) (Fin ar) = Inr (Fin t)"
        using arpos r(1) by (simp add: float_truediv_def t_def)
      have tpos: "0 \<le> t" unfolding t_def using awpos arpos by (intro round_magnitude_nonneg) simp
      have b: "rat_of_int \<lfloor>t\<rfloor> \<le> ah" unfolding t_def
        by (rule fit_to_width_bound [OF awl aw(3) ah gap ar(3,4) le])
      have "fit_image (Fin aw) (Fin ah) img = Inr (Float_num (Fin aw), Int_num \<lfloor>t\<rfloor>)"
        using False tpos
        by (simp add: fit_image_def ar(1) q d trunc_toward_zero_floor)
      moreover have "\<bar>t - aw / ar\<bar> \<le> aw / ar / 2 ^ 53" using r(2) by (simp only: t_def)
      ultimately show ?thesis using d b floor_within [of t] by blast
    qed
  qed
qed

lemma size_components_nonneg:
  assumes "0 \<le> a" and "0 \<le> t" and "t < rat_of_int i + 1"
  shows "0 \<le> trunc_toward_zero a" and "0 \<le> i"
proof -
  from assms(1) show "0 \<le> trunc_toward_zero a"
    by (simp add: trunc_toward_zero_def)
  from assms(2,3) have "0 < rat_of_int i + 1" by linarith
  then have "0 < rat_of_int (i + 1)" by simp
  then have "0 < i + 1" by (simp only: of_int_0_less_iff)
  then show "0 \<le> i" by simp
qed

lemma within_relative_nonneg:
  assumes "\<bar>t - x\<bar> \<le> x / 2 ^ 53" and "0 \<le> (x::rat)"
  shows "0 \<le> t"
proof -
  have "x / 2 ^ 53 \<le> x" using assms(2) by (simp add: field_simps)
  moreover have "- (t - x) \<le> \<bar>t - x\<bar>" by (rule abs_ge_minus_self)
  ultimately show ?thesis using assms(1) by linarith
qed

text \<open>
  C6. An image of natural size on a natural viewport, all four sizes below
  \<open>2 ^ 31\<close> as pygame's C ints are, drawn with the program's paddings 0.1: the
  function returns, neither \<^verbatim>\<open>new_width\<close> nor \<^verbatim>\<open>new_height\<close> exceeds the available
  width or height, and the ratio is kept up to the truncation of one dimension.
  The aspect ratio \<open>ar\<close> is the image's width over its height rounded to a float.
  Fitting to height, \<^verbatim>\<open>new_height\<close> is the available height and \<^verbatim>\<open>new_width\<close> is the int
  \<open>i\<close> with \<open>i \<le> t < i + 1\<close> for the float product \<open>t\<close> of the height and \<open>ar\<close>; fitting
  to width, \<^verbatim>\<open>new_width\<close> is the available width and \<^verbatim>\<open>new_height\<close> is the int \<open>i\<close> with
  \<open>i \<le> t < i + 1\<close> for the float quotient \<open>t\<close> of the width and \<open>ar\<close>. Each float
  operation is within a relative \<open>2 powi - 53\<close> of the exact one.
\<close>

theorem image_fit_keeps_ratio_within_bounds:
  assumes img: "0 < surf_width img" "surf_width img < 2 ^ 31"
      "0 < surf_height img" "surf_height img < 2 ^ 31"
    and scr: "0 \<le> screen_width" "screen_width < 2 ^ 31"
      "0 < screen_height" "screen_height < 2 ^ 31"
  shows "\<exists>layout px py aw ah ar.
      draw_centered_image_with_padding img screen_width screen_height
        one_tenth one_tenth = Inr layout
    \<and> padded_viewport screen_width screen_height one_tenth one_tenth =
        Inr \<lparr>padding_x = Fin px, padding_y = Fin py,
             available_width = Fin aw, available_height = Fin ah\<rparr>
    \<and> int_truediv (surf_width img) (surf_height img) = Inr (Fin ar)
    \<and> \<bar>ar - of_int (surf_width img) / of_int (surf_height img)\<bar>
        \<le> of_int (surf_width img) / of_int (surf_height img) / 2 ^ 53
    \<and> float_le (number_value (new_width layout)) (Fin aw)
    \<and> float_le (number_value (new_height layout)) (Fin ah)
    \<and> ((\<exists>i t. new_width layout = Int_num i \<and> new_height layout = Float_num (Fin ah)
            \<and> float_mul (Fin ah) (Fin ar) = Fin t
            \<and> \<bar>t - ah * ar\<bar> \<le> ah * ar / 2 ^ 53
            \<and> of_int i \<le> t \<and> t < of_int i + 1)
       \<or> (\<exists>i t. new_width layout = Float_num (Fin aw) \<and> new_height layout = Int_num i
            \<and> float_truediv (Fin aw) (Fin ar) = Inr (Fin t)
            \<and> \<bar>t - aw / ar\<bar> \<le> aw / ar / 2 ^ 53
            \<and> of_int i \<le> t \<and> t < of_int i + 1))"
proof -
  from scr(3) have scr3: "0 \<le> screen_height" by simp
  from padded_viewport_one_tenth [OF scr(1,2) scr3 scr(4)] obtain px py aw ah where
    v: "padded_viewport screen_width screen_height one_tenth one_tenth =
        Inr \<lparr>padding_x = Fin px, padding_y = Fin py,
             available_width = Fin aw, available_height = Fin ah\<rparr>"
    and aw: "round_double aw = Fin aw"
      "of_int screen_width * 7 / 10 \<le> aw" "aw \<le> of_int screen_width * 9 / 10"
    and ah: "of_int screen_height * 7 / 10 \<le> ah" "ah \<le> of_int screen_height * 9 / 10"
    and gap: "\<And>N::int. ah < of_int N \<Longrightarrow> 1 / 2 ^ 20 \<le> of_int N - ah"
    by blast
  from scr(3) have "1 \<le> screen_height" by simp
  then have "1 \<le> rat_of_int screen_height" by simp
  with ah(1) have ahl: "7 / 10 \<le> ah" by linarith
  have "rat_of_int screen_height \<le> 2147483648"
    using rat_of_int_size(2) [OF scr(3,4)] by simp
  with ah(2) have ahu: "ah \<le> 2147483648" by linarith
  have "screen_width = 0 \<or> 0 < screen_width" using scr(1) by linarith
  then have "rat_of_int screen_width \<le> 2147483648"
    using rat_of_int_size(2) [OF _ scr(2)] by auto
  with aw(3) have awu: "aw \<le> 2147483648" by linarith
  from scr(1) have "0 \<le> rat_of_int screen_width" by simp
  with aw(2) have aw0: "0 \<le> aw" by linarith
  have awl: "aw = 0 \<or> 7 / 10 \<le> aw"
  proof (cases "screen_width = 0")
    case True
    with aw(2,3) show ?thesis by simp
  next
    case False
    with scr(1) have "1 \<le> screen_width" by simp
    then have "1 \<le> rat_of_int screen_width" by simp
    with aw(2) show ?thesis by linarith
  qed
  from aspect_ratio_of_image [OF img] obtain ar where
    ar: "int_truediv (surf_width img) (surf_height img) = Inr (Fin ar)"
      "round_magnitude ar = ar" "1 / 4294967296 \<le> ar" "ar \<le> 4294967296"
      "\<bar>ar - of_int (surf_width img) / of_int (surf_height img)\<bar>
        \<le> of_int (surf_width img) / of_int (surf_height img) / 2 ^ 53"
    by blast
  from ahl have ah0: "0 \<le> ah" by linarith
  from ar(3) have ar0: "0 < ar" by linarith
  have b: "(\<exists>i t. fit_image (Fin aw) (Fin ah) img = Inr (Int_num i, Float_num (Fin ah))
            \<and> float_mul (Fin ah) (Fin ar) = Fin t
            \<and> \<bar>t - ah * ar\<bar> \<le> ah * ar / 2 ^ 53
            \<and> of_int i \<le> t \<and> t < of_int i + 1 \<and> of_int i \<le> aw)
       \<or> (\<exists>i t. fit_image (Fin aw) (Fin ah) img = Inr (Float_num (Fin aw), Int_num i)
            \<and> float_truediv (Fin aw) (Fin ar) = Inr (Fin t)
            \<and> \<bar>t - aw / ar\<bar> \<le> aw / ar / 2 ^ 53
            \<and> of_int i \<le> t \<and> t < of_int i + 1 \<and> of_int i \<le> ah)"
    by (rule fit_image_bounds [OF aw(1) awl awu ahl ahu _ ar(1-4)]) (rule gap)
  have "\<exists>layout.
      draw_centered_image_with_padding img screen_width screen_height
        one_tenth one_tenth = Inr layout
    \<and> float_le (number_value (new_width layout)) (Fin aw)
    \<and> float_le (number_value (new_height layout)) (Fin ah)
    \<and> ((\<exists>i t. new_width layout = Int_num i \<and> new_height layout = Float_num (Fin ah)
            \<and> float_mul (Fin ah) (Fin ar) = Fin t
            \<and> \<bar>t - ah * ar\<bar> \<le> ah * ar / 2 ^ 53
            \<and> of_int i \<le> t \<and> t < of_int i + 1)
       \<or> (\<exists>i t. new_width layout = Float_num (Fin aw) \<and> new_height layout = Int_num i
            \<and> float_truediv (Fin aw) (Fin ar) = Inr (Fin t)
            \<and> \<bar>t - aw / ar\<bar> \<le> aw / ar / 2 ^ 53
            \<and> of_int i \<le> t \<and> t < of_int i + 1))"
    using b
  proof (elim disjE exE conjE)
    fix i t
    assume f: "fit_image (Fin aw) (Fin ah) img = Inr (Int_num i, Float_num (Fin ah))"
      and t: "float_mul (Fin ah) (Fin ar) = Fin t" "\<bar>t - ah * ar\<bar> \<le> ah * ar / 2 ^ 53"
        "rat_of_int i \<le> t" "t < rat_of_int i + 1" "rat_of_int i \<le> aw"
    from ah0 ar0 have "0 \<le> ah * ar" by simp
    with t(2) have t0: "0 \<le> t" by (rule within_relative_nonneg)
    have nn: "0 \<le> trunc_toward_zero ah" "0 \<le> i"
      by (rule size_components_nonneg [OF ah0 t0 t(4)])+
    then have s: "transform_scale img (Int_num i, Float_num (Fin ah)) =
        Inr \<lparr>surf_width = i, surf_height = trunc_toward_zero ah\<rparr>"
      by (simp add: transform_scale_def size_component_def)
    define layout where "layout =
      \<lparr>new_width = Int_num i, new_height = Float_num (Fin ah),
       image_width = i, image_height = trunc_toward_zero ah,
       image_x = (screen_width - i) div 2,
       image_y = (screen_height - trunc_toward_zero ah) div 2\<rparr>"
    have d: "draw_centered_image_with_padding img screen_width screen_height
        one_tenth one_tenth = Inr layout"
      by (simp add: draw_centered_image_with_padding_def v f s layout_def)
    have "float_le (number_value (new_width layout)) (Fin aw)"
      using t(5) by (simp add: layout_def number_value_def)
    moreover have "float_le (number_value (new_height layout)) (Fin ah)"
      by (simp add: layout_def number_value_def)
    moreover have "new_width layout = Int_num i \<and> new_height layout = Float_num (Fin ah)"
      by (simp add: layout_def)
    ultimately show ?thesis using d t(1-4) by blast
  next
    fix i t
    assume f: "fit_image (Fin aw) (Fin ah) img = Inr (Float_num (Fin aw), Int_num i)"
      and t: "float_truediv (Fin aw) (Fin ar) = Inr (Fin t)"
        "\<bar>t - aw / ar\<bar> \<le> aw / ar / 2 ^ 53"
        "rat_of_int i \<le> t" "t < rat_of_int i + 1" "rat_of_int i \<le> ah"
    from aw0 ar0 have "0 \<le> aw / ar" by simp
    with t(2) have t0: "0 \<le> t" by (rule within_relative_nonneg)
    have nn: "0 \<le> trunc_toward_zero aw" "0 \<le> i"
      by (rule size_components_nonneg [OF aw0 t0 t(4)])+
    then have s: "transform_scale img (Float_num (Fin aw), Int_num i) =
        Inr \<lparr>surf_width = trunc_toward_zero aw, surf_height = i\<rparr>"
      by (simp add: transform_scale_def size_component_def)
    define layout where "layout =
      \<lparr>new_width = Float_num (Fin aw), new_height = Int_num i,
       image_width = trunc_toward_zero aw, image_height = i,
       image_x = (screen_width - trunc_toward_zero aw) div 2,
       image_y = (screen_height - i) div 2\<rparr>"
    have d: "draw_centered_image_with_padding img screen_width screen_height
        one_tenth one_tenth = Inr layout"
      by (simp add: draw_centered_image_with_padding_def v f s layout_def)
    have "float_le (number_value (new_width layout)) (Fin aw)"
      by (simp add: layout_def number_value_def)
    moreover have "float_le (number_value (new_height layout)) (Fin ah)"
      using t(5) by (simp add: layout_def number_value_def)
    moreover have "new_width layout = Float_num (Fin aw) \<and> new_height layout = Int_num i"
      by (simp add: layout_def)
    ultimately show ?thesis using d t(1-4) by blast
  qed
  with v ar(1,5) show ?thesis by blast
qed

text \<open>
  The theorem at an image 2 wide and 3 high on a 100 by 100 screen: the image is
  fit to height, 53 by 80 in the available 80 by 80.
\<close>

theorem image_fit_keeps_ratio_within_bounds_witness:
  "draw_centered_image_with_padding \<lparr>surf_width = 2, surf_height = 3\<rparr> 100 100
       one_tenth one_tenth =
     Inr \<lparr>new_width = Int_num 53, new_height = Float_num (Fin 80),
          image_width = 53, image_height = 80, image_x = 23, image_y = 10\<rparr>
   \<and> float_le (number_value (Int_num 53)) (Fin 80)
   \<and> float_le (number_value (Float_num (Fin 80))) (Fin 80)"
proof -
  have "\<exists>layout px py aw ah.
      draw_centered_image_with_padding \<lparr>surf_width = 2, surf_height = 3\<rparr> 100 100
        one_tenth one_tenth = Inr layout
    \<and> padded_viewport 100 100 one_tenth one_tenth =
        Inr \<lparr>padding_x = Fin px, padding_y = Fin py,
             available_width = Fin aw, available_height = Fin ah\<rparr>
    \<and> float_le (number_value (new_width layout)) (Fin aw)
    \<and> float_le (number_value (new_height layout)) (Fin ah)"
    using image_fit_keeps_ratio_within_bounds
      [of "\<lparr>surf_width = 2, surf_height = 3\<rparr>" 100 100]
    by simp blast
  then show ?thesis by (simp add: draw_image_2_3 padded_viewport_100)
qed

end
